theory Spec2Isabelle
  imports Complex_Main "HOL-Library.Word"
begin

section \<open>The batched parsing readers of \<^verbatim>\<open>reader_ops.cc\<close>\<close>

text \<open>
  The development embeds \<^verbatim>\<open>ParsingReader\<close>, \<^verbatim>\<open>GoldParseReader\<close> and
  \<^verbatim>\<open>DecodedParseReader\<close> of \<^verbatim>\<open>syntaxnet/neurosis/reader_ops.cc\<close>. One call of
  \<^verbatim>\<open>Compute\<close> is one step of the batch driver. The mutex of \<^verbatim>\<open>Compute\<close> serialises
  the steps, so a step is a function from the reader before to the reader after,
  together with the output tensors.
\<close>

subsection \<open>Outcomes of a step that does not produce its outputs\<close>

text \<open>
  \<^verbatim>\<open>CHECK(c)\<close> with a false \<open>c\<close> logs and aborts the process. \<^verbatim>\<open>OP_REQUIRES_OK\<close> sets an
  error status on the kernel context and returns from \<^verbatim>\<open>Compute\<close>: that is the only
  way in which \<^verbatim>\<open>Compute\<close> hands an error to its caller. Reading or writing a tensor or
  a vector past its end is undefined in C++; the model stops there with
  \<open>OutOfBounds\<close>.
\<close>

datatype failure = CheckFailure | OutOfBounds | StatusError

text \<open>A \<^verbatim>\<open>for\<close> loop over a fixed index range whose body may stop the step.\<close>

primrec for_each :: "nat list \<Rightarrow> (nat \<Rightarrow> 's \<Rightarrow> failure + 's) \<Rightarrow> 's \<Rightarrow> failure + 's" where
  "for_each [] body s = Inr s"
| "for_each (i # is) body s =
     (case body i s of Inl e \<Rightarrow> Inl e | Inr s' \<Rightarrow> for_each is body s')"

subsection \<open>Scores\<close>

text \<open>
  The scores are C \<^verbatim>\<open>float\<close>s. The reader only compares them with \<^verbatim>\<open>>\<close> and starts
  from \<^verbatim>\<open>-INFINITY\<close>, so a score is kept as the value it denotes: a finite float is a
  real number, and the three special values are constructors. \<open>float_gt\<close> is the
  IEEE-754 comparison \<^verbatim>\<open>a > b\<close>: false as soon as one side is a NaN.
\<close>

datatype fscore = NaN | NegInf | Finite real | PosInf

fun float_gt :: "fscore \<Rightarrow> fscore \<Rightarrow> bool" where
  "float_gt NaN b = False"
| "float_gt a NaN = False"
| "float_gt NegInf b = False"
| "float_gt (Finite x) NegInf = True"
| "float_gt (Finite x) (Finite y) = (y < x)"
| "float_gt (Finite x) PosInf = False"
| "float_gt PosInf PosInf = False"
| "float_gt PosInf b = True"

text \<open>
  \<^verbatim>\<open>context->input(0).matrix<float>()\<close>: a rank-2 tensor with its two dimensions.
  \<open>coeff m r c\<close> is \<^verbatim>\<open>m(r, c)\<close> and is only meaningful for \<open>r < dimension0 m\<close> and
  \<open>c < dimension1 m\<close>.
\<close>

record float_matrix =
  dimension0 :: nat
  dimension1 :: nat
  coeff :: "nat \<Rightarrow> nat \<Rightarrow> fscore"

subsection \<open>Collaborators that are not part of the source file\<close>

text \<open>
  \<^verbatim>\<open>Token\<close> of \<^verbatim>\<open>sentence.pb.h\<close>, as far as the reader looks at it.
\<close>

record token =
  word :: string
  tag :: string

text \<open>
  The reader is written against \<^verbatim>\<open>ParserTransitionSystem\<close>, \<^verbatim>\<open>ParserState\<close>,
  \<^verbatim>\<open>ParserEmbeddingFeatureExtractor\<close>, \<^verbatim>\<open>PunctuationUtil\<close> and the protocol buffers,
  whose sources are not in the repository snapshot. They are parameters of the
  model: \<open>'st\<close> is \<^verbatim>\<open>ParserState\<close>, \<open>'sent\<close> is \<^verbatim>\<open>Sentence\<close>, \<open>'ws\<close> is \<^verbatim>\<open>WorkspaceSet\<close> and
  \<open>'feat\<close> is \<^verbatim>\<open>SparseFeatures\<close>. \<^verbatim>\<open>ParserAction\<close> is \<^verbatim>\<open>int\<close>. A method that mutates
  its argument returns the new value.

  \<open>NewParserState s\<close> is
  \<^verbatim>\<open>new ParserState(s, transition_system_->NewTransitionState(true), label_map_)\<close>;
  \<open>ResetWorkspace\<close> is a workspace set after \<^verbatim>\<open>Reset(workspace_registry_)\<close>.
\<close>

record ('st, 'sent, 'ws, 'feat) components =
  IsAllowedAction :: "int \<Rightarrow> 'st \<Rightarrow> bool"
  PerformAction :: "int \<Rightarrow> 'st \<Rightarrow> 'st"
  IsFinalState :: "'st \<Rightarrow> bool"
  GetNextGoldAction :: "'st \<Rightarrow> int"
  NewParserState :: "'sent \<Rightarrow> 'st"
  sentence :: "'st \<Rightarrow> 'sent"
  token_size :: "'sent \<Rightarrow> nat"
  GetToken :: "'st \<Rightarrow> nat \<Rightarrow> token"
  IsTokenCorrect :: "'st \<Rightarrow> nat \<Rightarrow> bool"
  AddParseToDocument :: "'st \<Rightarrow> 'sent \<Rightarrow> 'sent"
  ScoreToken :: "string \<Rightarrow> string \<Rightarrow> string \<Rightarrow> bool"
  NumEmbeddings :: nat
  FeatureSize :: "nat \<Rightarrow> nat"
  ResetWorkspace :: "'ws"
  Preprocess :: "'ws \<Rightarrow> 'st \<Rightarrow> 'ws"
  ExtractSparseFeatures :: "'ws \<Rightarrow> 'st \<Rightarrow> 'feat list list"
  SerializeFeatures :: "'feat \<Rightarrow> string"
  SerializeSentence :: "'sent \<Rightarrow> string"

subsection \<open>SentenceBatch\<close>

text \<open>
  Modelled from the spec: \<^verbatim>\<open>SentenceBatch\<close> (\<^verbatim>\<open>sentence_batch.h\<close> is not among the
  sources). It owns a rewindable corpus cursor and one sentence slot per batch index.
  The corpus is the list of sentences of the named input, in file order.
\<close>

record 'sent SentenceBatch =
  corpus :: "'sent list"
  cursor :: nat
  sentences :: "'sent option list"

definition SentenceBatch_AdvanceSentence ::
    "'sent SentenceBatch \<Rightarrow> nat \<Rightarrow> bool \<times> 'sent SentenceBatch" where
  \<comment> \<open>Modelled from the spec: if more sentences remain, loads the next one into the slot
      and returns true; else leaves the slot empty and returns false.\<close>
  "SentenceBatch_AdvanceSentence b index =
     (if cursor b < length (corpus b)
      then (True, b\<lparr>sentences := (sentences b)[index := Some (corpus b ! cursor b)],
                     cursor := cursor b + 1\<rparr>)
      else (False, b\<lparr>sentences := (sentences b)[index := None]\<rparr>))"

definition SentenceBatch_size :: "'sent SentenceBatch \<Rightarrow> nat" where
  \<comment> \<open>Modelled from the spec: the count of occupied slots.\<close>
  "SentenceBatch_size b = length (filter (\<lambda>s. s \<noteq> None) (sentences b))"

definition SentenceBatch_Rewind :: "'sent SentenceBatch \<Rightarrow> 'sent SentenceBatch" where
  \<comment> \<open>Modelled from the spec: resets the corpus cursor to the start.\<close>
  "SentenceBatch_Rewind b = b\<lparr>cursor := 0\<rparr>"

definition SentenceBatch_sentence :: "'sent SentenceBatch \<Rightarrow> nat \<Rightarrow> 'sent option" where
  \<comment> \<open>Modelled from the spec: the sentence currently loaded in the slot
      (\<open>None\<close> is the null pointer).\<close>
  "SentenceBatch_sentence b index = sentences b ! index"

subsection \<open>ParsingReader\<close>

text \<open>
  The fields of \<^verbatim>\<open>ParsingReader\<close> that change while it runs, and \<^verbatim>\<open>max_batch_size_\<close>.
  A field keeps its name without the trailing underscore.
  A \<^verbatim>\<open>unique_ptr\<close> is an option, \<open>None\<close> for \<^verbatim>\<open>nullptr\<close>. \<^verbatim>\<open>int num_epochs_\<close> is a
  32-bit word, read as a signed number with \<open>sint\<close>: \<^verbatim>\<open>++num_epochs_\<close> is \<open>+ 1\<close> on the word and goes
  from 2147483647 to -2147483648, as the compiled code does. The epoch output is the
  same word (\<^verbatim>\<open>int32\<close>).
\<close>

record ('st, 'sent, 'ws) ParsingReader =
  num_epochs :: "32 word"
  max_batch_size :: nat
  sentence_batch :: "'sent SentenceBatch"
  states :: "'st option list"
  workspaces :: "'ws list"

text \<open>
  The reader as the constructor leaves it: \<^verbatim>\<open>states_\<close> and \<^verbatim>\<open>workspaces_\<close> resized to
  the batch size, no sentence loaded, \<^verbatim>\<open>num_epochs_ = 0\<close>.
\<close>

definition InitialReader ::
    "('st, 'sent, 'ws, 'feat) components \<Rightarrow> nat \<Rightarrow> 'sent list \<Rightarrow> ('st, 'sent, 'ws) ParsingReader" where
  "InitialReader env batch_size sents =
     \<lparr>num_epochs = 0, max_batch_size = batch_size,
      sentence_batch = \<lparr>corpus = sents, cursor = 0, sentences = replicate batch_size None\<rparr>,
      states = replicate batch_size None,
      workspaces = replicate batch_size (ResetWorkspace env)\<rparr>"

text \<open>
  The accessor \<^verbatim>\<open>state(i)\<close>. Every loop of the reader calls it with
  \<open>i < max_batch_size\<close> on a vector of that size; outside the vector the model
  answers with the null pointer.
\<close>

definition state :: "('st, 'sent, 'ws, 'm) ParsingReader_scheme \<Rightarrow> nat \<Rightarrow> 'st option" where
  "state r i = (if i < length (states r) then states r ! i else None)"

text \<open>\<^verbatim>\<open>batch_size()\<close>.\<close>

definition batch_size :: "('st, 'sent, 'ws, 'm) ParsingReader_scheme \<Rightarrow> nat" where
  "batch_size r = SentenceBatch_size (sentence_batch r)"

text \<open>
  \<^verbatim>\<open>ParsingReader::AdvanceSentence\<close> (lines 108--117). When the batch reports a new
  sentence, \<^verbatim>\<open>sentence(index)\<close> is that sentence; the branch for a null pointer there
  is not taken for a slot of the batch.
\<close>

definition AdvanceSentence ::
    "('st, 'sent, 'ws, 'feat) components \<Rightarrow> ('st, 'sent, 'ws, 'm) ParsingReader_scheme \<Rightarrow> nat
      \<Rightarrow> ('st, 'sent, 'ws, 'm) ParsingReader_scheme" where
  "AdvanceSentence env r index =
     (let r0 = r\<lparr>states := (states r)[index := None]\<rparr>;
          (more, b) = SentenceBatch_AdvanceSentence (sentence_batch r0) index;
          r1 = r0\<lparr>sentence_batch := b\<rparr>
      in if more
         then (case SentenceBatch_sentence b index of
                 None \<Rightarrow> r1
               | Some s \<Rightarrow>
                   let st = NewParserState env s
                   in r1\<lparr>states := (states r1)[index := Some st],
                         workspaces := (workspaces r1)[index := Preprocess env (ResetWorkspace env) st]\<rparr>)
         else r1)"

text \<open>
  The \<^verbatim>\<open>while\<close> loop of lines 130--134 for one slot: as long as the slot holds a
  final state, advance it; stop when the slot is empty (\<^verbatim>\<open>break\<close>) or holds a state
  that is not final. The guard of line 127 (\<^verbatim>\<open>continue\<close> on an empty slot) is the
  same test, made before the first round.
\<close>

function AdvanceWhileFinal ::
    "('st, 'sent, 'ws, 'feat) components \<Rightarrow> ('st, 'sent, 'ws, 'm) ParsingReader_scheme \<Rightarrow> nat
      \<Rightarrow> ('st, 'sent, 'ws, 'm) ParsingReader_scheme" where
  "AdvanceWhileFinal env r i =
     (case state r i of
        None \<Rightarrow> r
      | Some st \<Rightarrow>
          if IsFinalState env st then AdvanceWhileFinal env (AdvanceSentence env r i) i
          else r)"
  by pat_completeness auto
termination
proof (relation "measure (\<lambda>(env, r, i). case state r i of None \<Rightarrow> 0
         | Some st \<Rightarrow> Suc (length (corpus (sentence_batch r)) - cursor (sentence_batch r)))")
  show "wf (measure (\<lambda>(env :: ('st, 'sent, 'ws, 'feat) components,
                       r :: ('st, 'sent, 'ws, 'm) ParsingReader_scheme, i).
          case state r i of None \<Rightarrow> 0
          | Some st \<Rightarrow> Suc (length (corpus (sentence_batch r)) - cursor (sentence_batch r))))"
    by simp
next
  fix env :: "('st, 'sent, 'ws, 'feat) components"
    and r :: "('st, 'sent, 'ws, 'm) ParsingReader_scheme" and i st
  assume "state r i = Some st" "IsFinalState env st"
  then show "((env, AdvanceSentence env r i, i), (env, r, i))
      \<in> measure (\<lambda>(env, r, i). case state r i of None \<Rightarrow> 0
         | Some st \<Rightarrow> Suc (length (corpus (sentence_batch r)) - cursor (sentence_batch r)))"
    by (auto simp: AdvanceSentence_def SentenceBatch_AdvanceSentence_def
        SentenceBatch_sentence_def state_def Let_def split: option.splits if_splits)
qed

text \<open>Lines 126--135: the pass over all slots.\<close>

definition AdvanceFinalStates ::
    "('st, 'sent, 'ws, 'feat) components \<Rightarrow> ('st, 'sent, 'ws, 'm) ParsingReader_scheme
      \<Rightarrow> ('st, 'sent, 'ws, 'm) ParsingReader_scheme" where
  "AdvanceFinalStates env r = foldl (AdvanceWhileFinal env) r [0..<max_batch_size r]"

text \<open>
  Lines 138--143: rewind when no sentence is left in the batch. \<^verbatim>\<open>++num_epochs_\<close> is
  the addition of the 32-bit word, which wraps.
\<close>

definition RewindIfEmpty ::
    "('st, 'sent, 'ws, 'feat) components \<Rightarrow> ('st, 'sent, 'ws, 'm) ParsingReader_scheme
      \<Rightarrow> ('st, 'sent, 'ws, 'm) ParsingReader_scheme" where
  "RewindIfEmpty env r =
     (if SentenceBatch_size (sentence_batch r) = 0
      then let r1 = r\<lparr>num_epochs := num_epochs r + 1\<rparr>;
               r2 = r1\<lparr>sentence_batch := SentenceBatch_Rewind (sentence_batch r1)\<rparr>
           in foldl (AdvanceSentence env) r2 [0..<max_batch_size r2]
      else r)"

text \<open>
  Lines 146--152: one string matrix per feature group, of shape
  \<^verbatim>\<open>{sentence_batch_->size(), features_->FeatureSize(i)}\<close>. A matrix is the list of its
  rows; a fresh string tensor holds empty strings.
\<close>

definition AllocateFeatureOutputs ::
    "('st, 'sent, 'ws, 'feat) components \<Rightarrow> ('st, 'sent, 'ws, 'm) ParsingReader_scheme
      \<Rightarrow> string list list list" where
  "AllocateFeatureOutputs env r =
     map (\<lambda>i. replicate (SentenceBatch_size (sentence_batch r)) (replicate (FeatureSize env i) []))
       [0..<NumEmbeddings env]"

text \<open>Lines 168--171: \<^verbatim>\<open>features_output(index, k) = features[feature_space][k].SerializeAsString()\<close>,
  with \<open>fgroup\<close> for \<^verbatim>\<open>features[feature_space]\<close>.\<close>

definition WriteRow ::
    "('st, 'sent, 'ws, 'feat) components \<Rightarrow> 'feat list \<Rightarrow> string list list \<Rightarrow> nat
      \<Rightarrow> string list list" where
  "WriteRow env fgroup features_output index =
     foldl (\<lambda>m k. m[index := (m ! index)[k := SerializeFeatures env (fgroup ! k)]])
       features_output [0..<length fgroup]"

text \<open>
  Lines 164--171, the body of the loop over the groups that the extractor returned
  for one state. The \<^verbatim>\<open>CHECK\<close> comes first; then \<^verbatim>\<open>feature_outputs[feature_space]\<close> is
  dereferenced, and row \<open>index\<close> is written when the group is not empty.
\<close>

definition PopulateGroup ::
    "('st, 'sent, 'ws, 'feat) components \<Rightarrow> 'feat list list \<Rightarrow> nat \<Rightarrow> nat
      \<Rightarrow> string list list list \<Rightarrow> failure + string list list list" where
  "PopulateGroup env features index feature_space outs =
     (let feature_size = length (features ! feature_space)
      in if feature_size \<noteq> FeatureSize env feature_space then Inl CheckFailure
         else if length outs \<le> feature_space then Inl OutOfBounds
         else if 0 < feature_size \<and> length (outs ! feature_space) \<le> index
           then Inl OutOfBounds
         else Inr (outs[feature_space :=
                     WriteRow env (features ! feature_space) (outs ! feature_space) index]))"

text \<open>Lines 163--172: the loop over the groups of one state.\<close>

definition PopulateSlot ::
    "('st, 'sent, 'ws, 'feat) components \<Rightarrow> 'feat list list \<Rightarrow> nat \<Rightarrow> string list list list
      \<Rightarrow> failure + string list list list" where
  "PopulateSlot env features index feature_outputs =
     for_each [0..<length features] (PopulateGroup env features index) feature_outputs"

text \<open>
  Lines 155--174: the body of the loop over the slots; the pair is the row counter
  \<^verbatim>\<open>index\<close> and the output tensors.
\<close>

fun PopulateState ::
    "('st, 'sent, 'ws, 'feat) components \<Rightarrow> ('st, 'sent, 'ws, 'm) ParsingReader_scheme \<Rightarrow> nat
      \<Rightarrow> nat \<times> string list list list \<Rightarrow> failure + nat \<times> string list list list" where
  "PopulateState env r i (index, outs) =
     (case state r i of
        None \<Rightarrow> Inr (index, outs)
      | Some st \<Rightarrow>
          (case PopulateSlot env (ExtractSparseFeatures env (workspaces r ! i) st) index outs of
             Inl e \<Rightarrow> Inl e
           | Inr outs' \<Rightarrow> Inr (index + 1, outs')))"

text \<open>Lines 146--174: allocation, then the loop over the slots.\<close>

definition PopulateFeatureOutputs ::
    "('st, 'sent, 'ws, 'feat) components \<Rightarrow> ('st, 'sent, 'ws, 'm) ParsingReader_scheme
      \<Rightarrow> failure + nat \<times> string list list list" where
  "PopulateFeatureOutputs env r =
     for_each [0..<max_batch_size r] (PopulateState env r) (0, AllocateFeatureOutputs env r)"

text \<open>
  The output tensors of one step: the feature groups, the epoch scalar, and the
  outputs of the subclass from \<^verbatim>\<open>additional_output_index()\<close> on.
\<close>

record 'add outputs =
  feature_outputs :: "string list list list"
  epoch_output :: "32 word"
  additional_outputs :: 'add

text \<open>
  \<^verbatim>\<open>ParsingReader::Compute\<close> (lines 119--185). The two virtual methods are arguments.
  \<^verbatim>\<open>allocate_output\<close> is taken to succeed.
\<close>

definition Compute ::
    "('st, 'sent, 'ws, 'feat) components
      \<Rightarrow> (('st, 'sent, 'ws, 'm) ParsingReader_scheme \<Rightarrow> failure + ('st, 'sent, 'ws, 'm) ParsingReader_scheme)
      \<Rightarrow> (('st, 'sent, 'ws, 'm) ParsingReader_scheme
            \<Rightarrow> failure + 'add \<times> ('st, 'sent, 'ws, 'm) ParsingReader_scheme)
      \<Rightarrow> ('st, 'sent, 'ws, 'm) ParsingReader_scheme
      \<Rightarrow> failure + ('st, 'sent, 'ws, 'm) ParsingReader_scheme \<times> 'add outputs" where
  "Compute env PerformActions AddAdditionalOutputs r =
     (case PerformActions r of
        Inl e \<Rightarrow> Inl e
      | Inr r1 \<Rightarrow>
          let r2 = AdvanceFinalStates env r1;
              r3 = RewindIfEmpty env r2
          in case PopulateFeatureOutputs env r3 of
               Inl e \<Rightarrow> Inl e
             | Inr (index, outs) \<Rightarrow>
                 (case AddAdditionalOutputs r3 of
                    Inl e \<Rightarrow> Inl e
                  | Inr (add, r4) \<Rightarrow>
                      Inr (r4, \<lparr>feature_outputs = outs, epoch_output = num_epochs r3,
                                additional_outputs = add\<rparr>)))"

subsection \<open>GoldParseReader\<close>

text \<open>\<^verbatim>\<open>GoldParseReader::PerformActions\<close> (lines 271--278).\<close>

definition Gold_PerformAction ::
    "('st, 'sent, 'ws, 'feat) components \<Rightarrow> ('st, 'sent, 'ws, 'm) ParsingReader_scheme \<Rightarrow> nat
      \<Rightarrow> ('st, 'sent, 'ws, 'm) ParsingReader_scheme" where
  \<comment> \<open>the body of the loop, for slot \<open>i\<close>\<close>
  "Gold_PerformAction env r i =
     (case state r i of
        None \<Rightarrow> r
      | Some st \<Rightarrow>
          r\<lparr>states := (states r)[i := Some (PerformAction env (GetNextGoldAction env st) st)]\<rparr>)"

definition Gold_PerformActions ::
    "('st, 'sent, 'ws, 'feat) components \<Rightarrow> ('st, 'sent, 'ws, 'm) ParsingReader_scheme
      \<Rightarrow> failure + ('st, 'sent, 'ws, 'm) ParsingReader_scheme" where
  "Gold_PerformActions env r = Inr (foldl (Gold_PerformAction env) r [0..<max_batch_size r])"

text \<open>
  \<^verbatim>\<open>GoldParseReader::AddAdditionalOutputs\<close> (lines 281--296): a vector of
  \<^verbatim>\<open>batch_size()\<close> entries, written through the counter \<^verbatim>\<open>batch_index\<close>. An entry that
  is never written is left as allocated (0 here).
\<close>

fun Gold_AddAction ::
    "('st, 'sent, 'ws, 'feat) components \<Rightarrow> ('st, 'sent, 'ws, 'm) ParsingReader_scheme \<Rightarrow> nat
      \<Rightarrow> nat \<times> int list \<Rightarrow> failure + nat \<times> int list" where
  \<comment> \<open>the body of the loop, for slot \<open>i\<close>\<close>
  "Gold_AddAction env r i (batch_index, gold_actions) =
     (case state r i of
        None \<Rightarrow> Inr (batch_index, gold_actions)
      | Some st \<Rightarrow>
          if length gold_actions \<le> batch_index then Inl OutOfBounds
          else Inr (batch_index + 1, gold_actions[batch_index := GetNextGoldAction env st]))"

definition Gold_AddAdditionalOutputs ::
    "('st, 'sent, 'ws, 'feat) components \<Rightarrow> ('st, 'sent, 'ws, 'm) ParsingReader_scheme
      \<Rightarrow> failure + int list \<times> ('st, 'sent, 'ws, 'm) ParsingReader_scheme" where
  "Gold_AddAdditionalOutputs env r =
     (case for_each [0..<max_batch_size r] (Gold_AddAction env r) (0, replicate (batch_size r) 0) of
        Inl e \<Rightarrow> Inl e
      | Inr (batch_index, gold_actions) \<Rightarrow> Inr (gold_actions, r))"

definition GoldCompute ::
    "('st, 'sent, 'ws, 'feat) components \<Rightarrow> ('st, 'sent, 'ws, 'm) ParsingReader_scheme
      \<Rightarrow> failure + ('st, 'sent, 'ws, 'm) ParsingReader_scheme \<times> int list outputs" where
  "GoldCompute env r = Compute env (Gold_PerformActions env) (Gold_AddAdditionalOutputs env) r"

subsection \<open>DecodedParseReader\<close>

record ('st, 'sent, 'ws) DecodedParseReader = "('st, 'sent, 'ws) ParsingReader" +
  num_tokens :: int
  num_correct :: int
  scoring_type :: string
  documents :: "'sent list"

text \<open>\<^verbatim>\<open>DecodedParseReader::ComputeTokenAccuracy\<close> (lines 336--345).\<close>

definition TallyToken ::
    "('st, 'sent, 'ws, 'feat) components \<Rightarrow> 'st \<Rightarrow> ('st, 'sent, 'ws, 'm) DecodedParseReader_scheme
      \<Rightarrow> nat \<Rightarrow> ('st, 'sent, 'ws, 'm) DecodedParseReader_scheme" where
  \<comment> \<open>the body of the loop, for token \<open>i\<close>\<close>
  "TallyToken env st r i =
     (let token = GetToken env st i
      in if ScoreToken env (word token) (tag token) (scoring_type r)
         then let r' = r\<lparr>num_tokens := num_tokens r + 1\<rparr>
              in if IsTokenCorrect env st i then r'\<lparr>num_correct := num_correct r' + 1\<rparr>
                 else r'
         else r)"

definition ComputeTokenAccuracy ::
    "('st, 'sent, 'ws, 'feat) components \<Rightarrow> 'st \<Rightarrow> ('st, 'sent, 'ws, 'm) DecodedParseReader_scheme
      \<Rightarrow> ('st, 'sent, 'ws, 'm) DecodedParseReader_scheme" where
  "ComputeTokenAccuracy env st r =
     foldl (TallyToken env st) r [0..<token_size env (sentence env st)]"

text \<open>
  Lines 359--364: the body of the scan of one row of the score matrix. The pair is
  \<^verbatim>\<open>(best_action, best_score)\<close>.
\<close>

fun ScanAction ::
    "('st, 'sent, 'ws, 'feat) components \<Rightarrow> float_matrix \<Rightarrow> nat \<Rightarrow> 'st \<Rightarrow> int \<times> fscore \<Rightarrow> nat
      \<Rightarrow> int \<times> fscore" where
  "ScanAction env scores_matrix batch_index st (best_action, best_score) action =
     (let score = coeff scores_matrix batch_index action
      in if float_gt score best_score \<and> IsAllowedAction env (int action) st
         then (int action, score)
         else (best_action, best_score))"

text \<open>Lines 356--365: the scan, from \<^verbatim>\<open>best_action = 0\<close> and \<^verbatim>\<open>best_score = -INFINITY\<close>.\<close>

definition BestAction ::
    "('st, 'sent, 'ws, 'feat) components \<Rightarrow> float_matrix \<Rightarrow> nat \<Rightarrow> 'st \<Rightarrow> int \<times> fscore" where
  "BestAction env scores_matrix batch_index st =
     foldl (ScanAction env scores_matrix batch_index st) (0, NegInf) [0..<dimension1 scores_matrix]"

text \<open>
  Lines 354--376: the body of the loop over the slots; the pair is the row counter
  \<^verbatim>\<open>batch_index\<close> and the reader. The row \<open>batch_index\<close> is read as soon as the
  matrix has a column, so it has to exist then.
\<close>

fun Decoded_PerformAction ::
    "('st, 'sent, 'ws, 'feat) components \<Rightarrow> float_matrix \<Rightarrow> nat
      \<Rightarrow> nat \<times> ('st, 'sent, 'ws, 'm) DecodedParseReader_scheme
      \<Rightarrow> failure + nat \<times> ('st, 'sent, 'ws, 'm) DecodedParseReader_scheme" where
  "Decoded_PerformAction env scores_matrix i (batch_index, r) =
     (case state r i of
        None \<Rightarrow> Inr (batch_index, r)
      | Some st \<Rightarrow>
          if 0 < dimension1 scores_matrix \<and> dimension0 scores_matrix \<le> batch_index
          then Inl OutOfBounds
          else
            let best_action = fst (BestAction env scores_matrix batch_index st);
                st' = PerformAction env best_action st;
                r1 = r\<lparr>states := (states r)[i := Some st']\<rparr>;
                r2 = (if IsFinalState env st'
                      then let r' = ComputeTokenAccuracy env st' r1
                           in r'\<lparr>documents := documents r' @
                                  [AddParseToDocument env st' (sentence env st')]\<rparr>
                      else r1)
            in Inr (batch_index + 1, r2))"

text \<open>\<^verbatim>\<open>DecodedParseReader::PerformActions\<close> (lines 349--378).\<close>

definition Decoded_PerformActions ::
    "('st, 'sent, 'ws, 'feat) components \<Rightarrow> float_matrix
      \<Rightarrow> ('st, 'sent, 'ws, 'm) DecodedParseReader_scheme
      \<Rightarrow> failure + ('st, 'sent, 'ws, 'm) DecodedParseReader_scheme" where
  "Decoded_PerformActions env scores_matrix r =
     (case for_each [0..<max_batch_size r] (Decoded_PerformAction env scores_matrix)
             (0, r\<lparr>num_tokens := 0, num_correct := 0\<rparr>) of
        Inl e \<Rightarrow> Inl e
      | Inr (batch_index, r') \<Rightarrow> Inr r')"

text \<open>
  \<^verbatim>\<open>DecodedParseReader::AddAdditionalOutputs\<close> (lines 382--404): the two counters,
  the serialized documents, and \<^verbatim>\<open>documents_.clear()\<close>.
\<close>

definition Decoded_AddAdditionalOutputs ::
    "('st, 'sent, 'ws, 'feat) components \<Rightarrow> ('st, 'sent, 'ws, 'm) DecodedParseReader_scheme
      \<Rightarrow> failure + ((int \<times> int) \<times> string list) \<times> ('st, 'sent, 'ws, 'm) DecodedParseReader_scheme" where
  "Decoded_AddAdditionalOutputs env r =
     Inr (((num_tokens r, num_correct r), map (SerializeSentence env) (documents r)),
          r\<lparr>documents := []\<rparr>)"

definition DecodedCompute ::
    "('st, 'sent, 'ws, 'feat) components \<Rightarrow> float_matrix
      \<Rightarrow> ('st, 'sent, 'ws, 'm) DecodedParseReader_scheme
      \<Rightarrow> failure + ('st, 'sent, 'ws, 'm) DecodedParseReader_scheme \<times> ((int \<times> int) \<times> string list) outputs" where
  "DecodedCompute env scores_matrix r =
     Compute env (Decoded_PerformActions env scores_matrix) (Decoded_AddAdditionalOutputs env) r"

subsection \<open>A small instance\<close>

text \<open>
  A two-action transition system to run the reader on: a state counts the tokens
  still in the buffer and the tokens on the stack. Action 0 pops the stack and is
  allowed when the stack is not empty; action 1 shifts and is allowed when the buffer
  is not empty. A state is final when both are empty, and it keeps the history of the
  actions performed on it. The gold oracle pops whenever it can. The extractor has
  two feature groups, of sizes 2 and 1; a feature is a number, serialized as that
  many letters.
\<close>

record toy_state =
  toy_sentence :: "token list"
  toy_buffer :: nat
  toy_stack :: nat
  toy_history :: "int list"

definition toy_perform :: "int \<Rightarrow> toy_state \<Rightarrow> toy_state" where
  "toy_perform a st =
     (if a = 0 then st\<lparr>toy_stack := toy_stack st - 1, toy_history := toy_history st @ [a]\<rparr>
      else st\<lparr>toy_buffer := toy_buffer st - 1, toy_stack := toy_stack st + 1,
              toy_history := toy_history st @ [a]\<rparr>)"

definition toy :: "(toy_state, token list, nat, nat) components" where
  "toy =
     \<lparr>IsAllowedAction = (\<lambda>a st. if a = 0 then 0 < toy_stack st else a = 1 \<and> 0 < toy_buffer st),
      PerformAction = toy_perform,
      IsFinalState = (\<lambda>st. toy_buffer st = 0 \<and> toy_stack st = 0),
      GetNextGoldAction = (\<lambda>st. if 0 < toy_stack st then 0 else 1),
      NewParserState =
        (\<lambda>s. \<lparr>toy_sentence = s, toy_buffer = length s, toy_stack = 0, toy_history = []\<rparr>),
      sentence = toy_sentence,
      token_size = length,
      GetToken = (\<lambda>st i. toy_sentence st ! i),
      IsTokenCorrect = (\<lambda>st i. word (toy_sentence st ! i) \<noteq> ''b''),
      AddParseToDocument = (\<lambda>st doc. map (\<lambda>t. t\<lparr>tag := ''parsed''\<rparr>) doc),
      ScoreToken = (\<lambda>w t scoring. scoring = [] \<or> t \<noteq> ''.''),
      NumEmbeddings = 2,
      FeatureSize = (\<lambda>g. if g = 0 then 2 else 1),
      ResetWorkspace = 0,
      Preprocess = (\<lambda>ws st. length (toy_sentence st)),
      ExtractSparseFeatures = (\<lambda>ws st. [[toy_buffer st, toy_stack st], [ws]]),
      SerializeFeatures = (\<lambda>n. replicate n (CHR ''x'')),
      SerializeSentence = (\<lambda>s. concat (map word s))\<rparr>"

definition tok :: "string \<Rightarrow> token" where
  "tok w = \<lparr>word = w, tag = ''N''\<rparr>"

text \<open>The same instance with an extractor whose first group has one feature too few.\<close>

definition toy_short_group :: "(toy_state, token list, nat, nat) components" where
  "toy_short_group = toy\<lparr>ExtractSparseFeatures := (\<lambda>ws st. [[toy_buffer st], [ws]])\<rparr>"

text \<open>A decoded reader as its constructor leaves it.\<close>

definition InitialDecodedReader ::
    "('st, 'sent, 'ws, 'feat) components \<Rightarrow> nat \<Rightarrow> 'sent list \<Rightarrow> string
      \<Rightarrow> ('st, 'sent, 'ws) DecodedParseReader" where
  "InitialDecodedReader env n sents scoring =
     ParsingReader.extend (InitialReader env n sents)
       (DecodedParseReader.fields 0 0 scoring [])"

subsection \<open>Notions used to state the properties\<close>

text \<open>
  The representation invariant of a reader between two steps: the two vectors have
  the size of the batch, a slot holds a parser state exactly when the sentence
  batch holds a sentence for it, and the cursor is inside the corpus or at its end.
\<close>

definition reader_inv :: "('st, 'sent, 'ws, 'm) ParsingReader_scheme \<Rightarrow> bool" where
  "reader_inv r \<longleftrightarrow>
     length (states r) = max_batch_size r \<and> length (workspaces r) = max_batch_size r \<and>
     map (\<lambda>s. s = None) (sentences (sentence_batch r)) = map (\<lambda>s. s = None) (states r) \<and>
     cursor (sentence_batch r) \<le> length (corpus (sentence_batch r))"

text \<open>
  The occupied slots below slot \<open>n\<close>, in slot order, each with its workspace. The
  number of occupied slots below slot \<open>i\<close> is the compacted index of slot \<open>i\<close>.
\<close>

definition live_slots :: "('st, 'sent, 'ws, 'm) ParsingReader_scheme \<Rightarrow> nat \<Rightarrow> ('ws \<times> 'st) list" where
  "live_slots r n =
     concat (map (\<lambda>i. case state r i of None \<Rightarrow> [] | Some st \<Rightarrow> [(workspaces r ! i, st)]) [0..<n])"

definition occupied :: "('st, 'sent, 'ws, 'm) ParsingReader_scheme \<Rightarrow> ('ws \<times> 'st) list" where
  "occupied r = live_slots r (max_batch_size r)"

definition compact_index :: "('st, 'sent, 'ws, 'm) ParsingReader_scheme \<Rightarrow> nat \<Rightarrow> nat" where
  "compact_index r i = length (live_slots r i)"

text \<open>
  The row that a state contributes to the output of feature group \<open>g\<close>: its
  serialized features, or the empty strings of the fresh tensor when the extractor
  returned fewer than \<open>g + 1\<close> groups.
\<close>

definition FeatureRow ::
    "('st, 'sent, 'ws, 'feat) components \<Rightarrow> nat \<Rightarrow> 'ws \<times> 'st \<Rightarrow> string list" where
  "FeatureRow env g p =
     (let features = ExtractSparseFeatures env (fst p) (snd p)
      in if g < length features then map (SerializeFeatures env) (features ! g)
         else replicate (FeatureSize env g) [])"

text \<open>
  An action is a candidate of a row when it is allowed and its score compares greater
  than \<^verbatim>\<open>-INFINITY\<close>: these are the actions that the scan can select.
\<close>

definition candidate :: "('st, 'sent, 'ws, 'feat) components \<Rightarrow> float_matrix \<Rightarrow> nat \<Rightarrow> 'st \<Rightarrow> nat \<Rightarrow> bool" where
  "candidate env m row st c \<longleftrightarrow> IsAllowedAction env (int c) st \<and> float_gt (coeff m row c) NegInf"

text \<open>
  The shape of the feature tensors while they are filled: one matrix per group, every
  matrix with \<open>n\<close> rows whose width is the feature size of the group.
\<close>

definition shaped :: "('st, 'sent, 'ws, 'feat) components \<Rightarrow> nat \<Rightarrow> string list list list \<Rightarrow> bool" where
  "shaped env n outs \<longleftrightarrow>
     length outs = NumEmbeddings env \<and>
     (\<forall>g<NumEmbeddings env. length (outs ! g) = n \<and> (\<forall>k<n. length (outs ! g ! k) = FeatureSize env g))"

text \<open>
  The extractor's answer for one state passes every \<^verbatim>\<open>CHECK\<close> of line 166 and names no
  group beyond the allocated outputs.
\<close>

definition features_ok :: "('st, 'sent, 'ws, 'feat) components \<Rightarrow> 'ws \<times> 'st \<Rightarrow> bool" where
  "features_ok env p \<longleftrightarrow>
     (let features = ExtractSparseFeatures env (fst p) (snd p)
      in length features \<le> NumEmbeddings env \<and>
         (\<forall>g<length features. length (features ! g) = FeatureSize env g))"

text \<open>
  The feature tensors with the rows of the states \<open>ps\<close> written, in this order, from
  row 0 on, and the remaining rows as allocated.
\<close>

definition feature_rows ::
    "('st, 'sent, 'ws, 'feat) components \<Rightarrow> nat \<Rightarrow> ('ws \<times> 'st) list \<Rightarrow> string list list list" where
  "feature_rows env n ps =
     map (\<lambda>g. map (FeatureRow env g) ps @ replicate (n - length ps) (replicate (FeatureSize env g) []))
       [0..<NumEmbeddings env]"

text \<open>
  What is left of the corpus from the cursor on, once the sentences whose initial
  parser state is already final have been skipped.
\<close>

definition skip_trivial :: "('st, 'sent, 'ws, 'feat) components \<Rightarrow> 'sent SentenceBatch \<Rightarrow> 'sent list" where
  "skip_trivial env b =
     dropWhile (\<lambda>s. IsFinalState env (NewParserState env s)) (drop (cursor b) (corpus b))"

text \<open>A slot is settled when it is empty or holds a state that is not final.\<close>

definition settled :: "('st, 'sent, 'ws, 'feat) components \<Rightarrow> 'st option \<Rightarrow> bool" where
  "settled env s \<longleftrightarrow> (case s of None \<Rightarrow> True | Some st \<Rightarrow> \<not> IsFinalState env st)"

text \<open>The state of a slot after the gold action.\<close>

definition gold_next :: "('st, 'sent, 'ws, 'feat) components \<Rightarrow> 'st option \<Rightarrow> 'st option" where
  "gold_next env s = map_option (\<lambda>st. PerformAction env (GetNextGoldAction env st) st) s"

text \<open>
  The token indices of a state's sentence that are scored under a scoring type,
  and those of them whose token is correct.
\<close>

definition scored_tokens :: "('st, 'sent, 'ws, 'feat) components \<Rightarrow> string \<Rightarrow> 'st \<Rightarrow> nat list" where
  "scored_tokens env scoring st =
     filter (\<lambda>i. ScoreToken env (word (GetToken env st i)) (tag (GetToken env st i)) scoring)
       [0..<token_size env (sentence env st)]"

definition correct_tokens :: "('st, 'sent, 'ws, 'feat) components \<Rightarrow> string \<Rightarrow> 'st \<Rightarrow> nat list" where
  "correct_tokens env scoring st = filter (IsTokenCorrect env st) (scored_tokens env scoring st)"

text \<open>
  The state of slot \<open>i\<close> after the decoded action: the action selected from the row
  of the score matrix with the slot's compacted index. \<open>finalized\<close> collects, in slot
  order, the states below slot \<open>n\<close> that are final after their action, and
  \<open>decoded_after\<close> is the reader once the slots below \<open>n\<close> have been processed.
\<close>

definition decoded_next ::
    "('st, 'sent, 'ws, 'feat) components \<Rightarrow> float_matrix \<Rightarrow> ('st, 'sent, 'ws, 'm) ParsingReader_scheme
      \<Rightarrow> nat \<Rightarrow> 'st option" where
  "decoded_next env m r i =
     (case state r i of
        None \<Rightarrow> None
      | Some st \<Rightarrow> Some (PerformAction env (fst (BestAction env m (compact_index r i) st)) st))"

definition finalized ::
    "('st, 'sent, 'ws, 'feat) components \<Rightarrow> float_matrix \<Rightarrow> ('st, 'sent, 'ws, 'm) ParsingReader_scheme
      \<Rightarrow> nat \<Rightarrow> 'st list" where
  "finalized env m r n =
     concat (map (\<lambda>i. case decoded_next env m r i of
                         None \<Rightarrow> []
                       | Some st' \<Rightarrow> if IsFinalState env st' then [st'] else []) [0..<n])"

definition decoded_after ::
    "('st, 'sent, 'ws, 'feat) components \<Rightarrow> float_matrix \<Rightarrow> ('st, 'sent, 'ws, 'm) DecodedParseReader_scheme
      \<Rightarrow> nat \<Rightarrow> ('st, 'sent, 'ws, 'm) DecodedParseReader_scheme" where
  "decoded_after env m r n =
     r\<lparr>states := map (decoded_next env m r) [0..<n] @ drop n (states r),
       num_tokens := sum_list (map (\<lambda>st. int (length (scored_tokens env (scoring_type r) st)))
                                 (finalized env m r n)),
       num_correct := sum_list (map (\<lambda>st. int (length (correct_tokens env (scoring_type r) st)))
                                  (finalized env m r n)),
       documents := documents r @ map (\<lambda>st. AddParseToDocument env st (sentence env st))
                                      (finalized env m r n)\<rparr>"

text \<open>
  One step of either reader, with the outputs that both have: the reader after the
  step, the feature tensors and the epoch scalar. A gold reader is run on the same
  record; it neither reads nor writes the fields of the decoded reader.
\<close>

datatype policy = GoldPolicy | DecodedPolicy float_matrix

definition ActionPass ::
    "('st, 'sent, 'ws, 'feat) components \<Rightarrow> policy \<Rightarrow> ('st, 'sent, 'ws, 'm) DecodedParseReader_scheme
      \<Rightarrow> failure + ('st, 'sent, 'ws, 'm) DecodedParseReader_scheme" where
  "ActionPass env p r =
     (case p of
        GoldPolicy \<Rightarrow> Gold_PerformActions env r
      | DecodedPolicy scores_matrix \<Rightarrow> Decoded_PerformActions env scores_matrix r)"

definition Step ::
    "('st, 'sent, 'ws, 'feat) components \<Rightarrow> policy \<Rightarrow> ('st, 'sent, 'ws, 'm) DecodedParseReader_scheme
      \<Rightarrow> failure + ('st, 'sent, 'ws, 'm) DecodedParseReader_scheme \<times> string list list list
            \<times> 32 word" where
  "Step env p r =
     (case p of
        GoldPolicy \<Rightarrow>
          (case GoldCompute env r of
             Inl e \<Rightarrow> Inl e
           | Inr (r', out) \<Rightarrow> Inr (r', feature_outputs out, epoch_output out))
      | DecodedPolicy scores_matrix \<Rightarrow>
          (case DecodedCompute env scores_matrix r of
             Inl e \<Rightarrow> Inl e
           | Inr (r', out) \<Rightarrow> Inr (r', feature_outputs out, epoch_output out)))"

text \<open>
  The readers that a run can be in: the reader that the constructor leaves, and the
  reader after any step that produced its outputs, under either policy.
\<close>

inductive reachable ::
    "('st, 'sent, 'ws, 'feat) components \<Rightarrow> ('st, 'sent, 'ws) DecodedParseReader \<Rightarrow> bool"
    for env :: "('st, 'sent, 'ws, 'feat) components" where
  constructed: "reachable env (InitialDecodedReader env n sents scoring)"
| stepped: "reachable env r \<Longrightarrow> Step env p r = Inr (r', feats, epoch) \<Longrightarrow> reachable env r'"

subsection \<open>Concrete readers and score matrices of the small instance\<close>

text \<open>
  A fresh state of the two-token sentence, and the state after its first shift.
\<close>

definition toy_fresh_state :: toy_state where
  "toy_fresh_state = \<lparr>toy_sentence = [tok ''a'', tok ''b''], toy_buffer = 2, toy_stack = 0, toy_history = []\<rparr>"

definition toy_shifted_state :: toy_state where
  "toy_shifted_state = \<lparr>toy_sentence = [tok ''a'', tok ''b''], toy_buffer = 1, toy_stack = 1, toy_history = [1]\<rparr>"

text \<open>
  A gold reader with one slot after its first step over the corpus of that single
  sentence, and the same reader after the shift.
\<close>

definition toy_gold_loaded :: "(toy_state, token list, nat) ParsingReader" where
  "toy_gold_loaded =
     \<lparr>num_epochs = 1, max_batch_size = 1,
      sentence_batch = \<lparr>corpus = [[tok ''a'', tok ''b'']], cursor = 1,
                        sentences = [Some [tok ''a'', tok ''b'']]\<rparr>,
      states = [Some toy_fresh_state], workspaces = [2]\<rparr>"

definition toy_gold_shifted :: "(toy_state, token list, nat) ParsingReader" where
  "toy_gold_shifted = toy_gold_loaded\<lparr>states := [Some toy_shifted_state]\<rparr>"

text \<open>The decoded readers in the same two situations.\<close>

definition toy_loaded :: "(toy_state, token list, nat) DecodedParseReader" where
  "toy_loaded =
     \<lparr>num_epochs = 1, max_batch_size = 1,
      sentence_batch = \<lparr>corpus = [[tok ''a'', tok ''b'']], cursor = 1,
                        sentences = [Some [tok ''a'', tok ''b'']]\<rparr>,
      states = [Some toy_fresh_state], workspaces = [2],
      num_tokens = 0, num_correct = 0, scoring_type = [], documents = []\<rparr>"

definition toy_shifted :: "(toy_state, token list, nat) DecodedParseReader" where
  "toy_shifted = toy_loaded\<lparr>states := [Some toy_shifted_state]\<rparr>"

text \<open>
  Score matrices with one row and two columns: every score \<^verbatim>\<open>-INFINITY\<close>; a finite
  score for action 0 only; the same finite score for both actions.
\<close>

definition neg_inf_scores :: float_matrix where
  "neg_inf_scores = \<lparr>dimension0 = 1, dimension1 = 2, coeff = (\<lambda>r c. NegInf)\<rparr>"

definition blocked_scores :: float_matrix where
  "blocked_scores = \<lparr>dimension0 = 1, dimension1 = 2, coeff = (\<lambda>r c. if c = 0 then Finite 5 else NegInf)\<rparr>"

definition tie_scores :: float_matrix where
  "tie_scores = \<lparr>dimension0 = 1, dimension1 = 2, coeff = (\<lambda>r c. Finite 3)\<rparr>"

text \<open>
  A state of the two-token sentence with an empty buffer and one token on the stack,
  and a decoded reader that holds it, with counters left over from an earlier step.
\<close>

definition toy_last_state :: toy_state where
  "toy_last_state =
     \<lparr>toy_sentence = [tok ''a'', tok ''b''], toy_buffer = 0, toy_stack = 1, toy_history = [1, 0, 1]\<rparr>"

definition toy_finishing :: "(toy_state, token list, nat) DecodedParseReader" where
  "toy_finishing = toy_loaded\<lparr>states := [Some toy_last_state], num_tokens := 7, num_correct := 5\<rparr>"

text \<open>
  Decoded readers with two slots as the constructor leaves them, over a corpus of one
  and of three one-token sentences, and the first of them after its first step.
\<close>

definition toy_one_sentence :: "(toy_state, token list, nat) DecodedParseReader" where
  "toy_one_sentence = InitialDecodedReader toy 2 [[tok ''a'']] []"

definition toy_three_sentences :: "(toy_state, token list, nat) DecodedParseReader" where
  "toy_three_sentences = InitialDecodedReader toy 2 [[tok ''a''], [tok ''b''], [tok ''c'']] []"

definition toy_half_filled :: "(toy_state, token list, nat) DecodedParseReader" where
  "toy_half_filled =
     \<lparr>num_epochs = 1, max_batch_size = 2,
      sentence_batch = \<lparr>corpus = [[tok ''a'']], cursor = 1, sentences = [Some [tok ''a''], None]\<rparr>,
      states = [Some (NewParserState toy [tok ''a'']), None], workspaces = [1, 0],
      num_tokens = 0, num_correct = 0, scoring_type = [], documents = []\<rparr>"

text \<open>
  A decoded reader with two slots in the middle of the corpus of a one-token and a
  two-token sentence, both loaded and shifted once; the same reader after a gold
  step, which finishes the first sentence and finds the corpus exhausted; and a score
  matrix with a single row.
\<close>

definition toy_two_running :: "(toy_state, token list, nat) DecodedParseReader" where
  "toy_two_running =
     \<lparr>num_epochs = 1, max_batch_size = 2,
      sentence_batch = \<lparr>corpus = [[tok ''a''], [tok ''a'', tok ''b'']], cursor = 2,
                        sentences = [Some [tok ''a''], Some [tok ''a'', tok ''b'']]\<rparr>,
      states = [Some \<lparr>toy_sentence = [tok ''a''], toy_buffer = 0, toy_stack = 1, toy_history = [1]\<rparr>,
                Some toy_shifted_state],
      workspaces = [1, 2],
      num_tokens = 0, num_correct = 0, scoring_type = [], documents = []\<rparr>"

definition toy_popped_state :: toy_state where
  "toy_popped_state =
     \<lparr>toy_sentence = [tok ''a'', tok ''b''], toy_buffer = 1, toy_stack = 0, toy_history = [1, 0]\<rparr>"

definition toy_one_left :: "(toy_state, token list, nat) DecodedParseReader" where
  "toy_one_left =
     toy_two_running
       \<lparr>sentence_batch := \<lparr>corpus = [[tok ''a''], [tok ''a'', tok ''b'']], cursor = 2,
                           sentences = [None, Some [tok ''a'', tok ''b'']]\<rparr>,
        states := [None, Some toy_popped_state]\<rparr>"

definition one_row_scores :: float_matrix where
  "one_row_scores =
     \<lparr>dimension0 = 1, dimension1 = 2, coeff = (\<lambda>r c. if r = 0 \<and> c = 1 then Finite 2 else NegInf)\<rparr>"

text \<open>
  A decoded reader with one slot that holds the final state of the first sentence of
  a corpus whose next two sentences are empty, so that their initial state is final;
  and the same reader one action earlier.
\<close>

definition toy_done_state :: toy_state where
  "toy_done_state = \<lparr>toy_sentence = [tok ''a''], toy_buffer = 0, toy_stack = 0, toy_history = [1, 0]\<rparr>"

definition toy_at_trivial :: "(toy_state, token list, nat) DecodedParseReader" where
  "toy_at_trivial =
     \<lparr>num_epochs = 1, max_batch_size = 1,
      sentence_batch = \<lparr>corpus = [[tok ''a''], [], [], [tok ''b''], [tok ''c'']], cursor = 1,
                        sentences = [Some [tok ''a'']]\<rparr>,
      states = [Some toy_done_state], workspaces = [1],
      num_tokens = 0, num_correct = 0, scoring_type = [], documents = []\<rparr>"

definition toy_before_done :: "(toy_state, token list, nat) DecodedParseReader" where
  "toy_before_done =
     toy_at_trivial
       \<lparr>states := [Some \<lparr>toy_sentence = [tok ''a''], toy_buffer = 0, toy_stack = 1, toy_history = [1]\<rparr>]\<rparr>"

text \<open>
  An extractor whose second group has as many features as the stack has tokens, so
  that the group has its declared size 1 on a stack of one token only; and a two-slot
  reader over two copies of the two-token sentence, slot 0 on the fresh state and
  slot 1 on the state after the shift.
\<close>

definition toy_uneven :: "(toy_state, token list, nat, nat) components" where
  "toy_uneven =
     toy\<lparr>ExtractSparseFeatures := (\<lambda>ws st. [[toy_buffer st, toy_stack st], replicate (toy_stack st) ws])\<rparr>"

definition toy_two_loaded :: "(toy_state, token list, nat) DecodedParseReader" where
  "toy_two_loaded =
     \<lparr>num_epochs = 1, max_batch_size = 2,
      sentence_batch = \<lparr>corpus = [[tok ''a'', tok ''b''], [tok ''a'', tok ''b'']], cursor = 2,
                        sentences = [Some [tok ''a'', tok ''b''], Some [tok ''a'', tok ''b'']]\<rparr>,
      states = [Some toy_fresh_state, Some toy_shifted_state], workspaces = [2, 2],
      num_tokens = 0, num_correct = 0, scoring_type = [], documents = []\<rparr>"

text \<open>
  An extractor that returns a group too many, of the declared size, on a stack with a
  token, and a first group that is too short on an empty stack.
\<close>

definition toy_extra_group :: "(toy_state, token list, nat, nat) components" where
  "toy_extra_group =
     toy\<lparr>ExtractSparseFeatures :=
           (\<lambda>ws st. if 0 < toy_stack st then [[toy_buffer st, toy_stack st], [ws], [ws]]
                     else [[toy_buffer st], [ws]])\<rparr>"


definition toy_at_int_max :: "(toy_state, token list, nat) DecodedParseReader" where
  "toy_at_int_max = toy_three_sentences\<lparr>num_epochs := 2147483647\<rparr>"

section \<open>Properties of the parts\<close>

declare AdvanceWhileFinal.simps [simp del]

lemma float_gt_NaN_right [simp]: "\<not> float_gt a NaN"
  by (cases a) simp_all

lemma float_gt_irrefl [simp]: "\<not> float_gt a a"
  by (cases a) simp_all

lemma float_gt_trans: "float_gt a b \<Longrightarrow> float_gt b c \<Longrightarrow> float_gt a c"
  by (cases a; cases b; cases c) simp_all

lemma float_gt_not_trans: "\<not> float_gt a b \<Longrightarrow> float_gt c b \<Longrightarrow> \<not> float_gt a c"
  by (cases a; cases b; cases c) simp_all

lemma float_gt_NegInf_iff: "float_gt a NegInf \<longleftrightarrow> a \<noteq> NaN \<and> a \<noteq> NegInf"
  by (cases a) simp_all

lemma float_le_gt: "\<not> float_gt a b \<Longrightarrow> float_gt c b \<Longrightarrow> a = NaN \<or> float_gt c a"
  by (cases a; cases b; cases c) simp_all

lemma scan_none:
  "\<forall>c<n. \<not> candidate env m row st c \<Longrightarrow> foldl (ScanAction env m row st) (0, NegInf) [0..<n] = (0, NegInf)"
  by (induction n) (auto simp: candidate_def Let_def)

lemma scan_some:
  assumes "\<exists>c<n. candidate env m row st c"
  shows "\<exists>c0<n. foldl (ScanAction env m row st) (0, NegInf) [0..<n] = (int c0, coeff m row c0)
     \<and> candidate env m row st c0
     \<and> (\<forall>c<n. IsAllowedAction env (int c) st \<longrightarrow> \<not> float_gt (coeff m row c) (coeff m row c0))
     \<and> (\<forall>c<c0. IsAllowedAction env (int c) st \<longrightarrow> coeff m row c = NaN \<or> float_gt (coeff m row c0) (coeff m row c))"
  using assms
proof (induction n)
  case 0
  then show ?case by simp
next
  case (Suc n)
  show ?case
  proof (cases "\<exists>c<n. candidate env m row st c")
    case False
    then have none: "\<forall>c<n. \<not> candidate env m row st c" by simp
    with Suc.prems have cn: "candidate env m row st n"
      using less_Suc_eq by auto
    have "foldl (ScanAction env m row st) (0, NegInf) [0..<Suc n] = (int n, coeff m row n)"
      using cn by (simp add: scan_none[OF none] candidate_def)
    moreover have "\<forall>c<Suc n. IsAllowedAction env (int c) st \<longrightarrow> \<not> float_gt (coeff m row c) (coeff m row n)"
      using none cn unfolding candidate_def less_Suc_eq
      by (meson float_gt_trans float_gt_irrefl)
    moreover have "\<forall>c<n. IsAllowedAction env (int c) st \<longrightarrow> coeff m row c = NaN \<or> float_gt (coeff m row n) (coeff m row c)"
      using none cn unfolding candidate_def by (meson float_le_gt)
    ultimately show ?thesis using cn by blast
  next
    case True
    from Suc.IH[OF True] obtain c0 where c0: "c0 < n"
      "foldl (ScanAction env m row st) (0, NegInf) [0..<n] = (int c0, coeff m row c0)"
      "candidate env m row st c0"
      "\<forall>c<n. IsAllowedAction env (int c) st \<longrightarrow> \<not> float_gt (coeff m row c) (coeff m row c0)"
      "\<forall>c<c0. IsAllowedAction env (int c) st \<longrightarrow> coeff m row c = NaN \<or> float_gt (coeff m row c0) (coeff m row c)"
      by blast
    show ?thesis
    proof (cases "float_gt (coeff m row n) (coeff m row c0) \<and> IsAllowedAction env (int n) st")
      case take: True
      have "foldl (ScanAction env m row st) (0, NegInf) [0..<Suc n] = (int n, coeff m row n)"
        using take c0(2) by simp
      moreover have "candidate env m row st n"
        using take c0(3) by (auto simp: candidate_def intro: float_gt_trans)
      moreover have "\<forall>c<Suc n. IsAllowedAction env (int c) st \<longrightarrow> \<not> float_gt (coeff m row c) (coeff m row n)"
        using take c0(4) unfolding less_Suc_eq
        by (meson float_gt_not_trans float_gt_irrefl)
      moreover have "\<forall>c<n. IsAllowedAction env (int c) st \<longrightarrow> coeff m row c = NaN \<or> float_gt (coeff m row n) (coeff m row c)"
        using take c0(1,4) by (meson float_le_gt)
      ultimately show ?thesis by blast
    next
      case keep: False
      have "foldl (ScanAction env m row st) (0, NegInf) [0..<Suc n] = (int c0, coeff m row c0)"
        using keep c0(2) by auto
      moreover have "\<forall>c<Suc n. IsAllowedAction env (int c) st \<longrightarrow> \<not> float_gt (coeff m row c) (coeff m row c0)"
        using keep c0(4) by (auto simp: less_Suc_eq)
      ultimately show ?thesis using c0 less_Suc_eq by blast
    qed
  qed
qed

lemma for_each_append:
  "for_each (xs @ ys) body s =
     (case for_each xs body s of Inl e \<Rightarrow> Inl e | Inr s' \<Rightarrow> for_each ys body s')"
  by (induction xs arbitrary: s) (auto split: sum.splits)

lemma for_each_upt_Suc:
  "for_each [0..<Suc n] body s =
     (case for_each [0..<n] body s of Inl e \<Rightarrow> Inl e | Inr s' \<Rightarrow> body n s')"
  by (simp add: for_each_append split: sum.splits)

lemma WriteRow_prefix:
  assumes "k < length mat" "length (mat ! k) = length fg" "j \<le> length fg"
  shows "foldl (\<lambda>m c. m[k := (m ! k)[c := ser (fg ! c)]]) mat [0..<j]
           = mat[k := map ser (take j fg) @ drop j (mat ! k)]"
  using assms(3)
proof (induction j)
  case 0
  then show ?case by simp
next
  case (Suc j)
  then have j: "j < length fg" by simp
  have "(map ser (take j fg) @ drop j (mat ! k))[j := ser (fg ! j)]
          = map ser (take (Suc j) fg) @ drop (Suc j) (mat ! k)"
    using j assms(2)
    by (intro nth_equalityI) (auto simp: nth_append nth_list_update take_Suc_conv_app_nth less_Suc_eq)
  with Suc assms(1) show ?case by simp
qed

lemma WriteRow_eq:
  assumes "k < length mat" "length (mat ! k) = length fg"
  shows "WriteRow env fg mat k = mat[k := map (SerializeFeatures env) fg]"
  using WriteRow_prefix[OF assms, of "length fg" "SerializeFeatures env"] assms
  by (simp add: WriteRow_def)

lemma WriteRow_empty: "WriteRow env [] mat k = mat"
  by (simp add: WriteRow_def)

lemma PopulateSlot_prefix:
  assumes sh: "shaped env n outs" and k: "k < n"
  shows "m \<le> length f \<Longrightarrow> for_each [0..<m] (PopulateGroup env f k) outs = Inr outs' \<Longrightarrow>
         m \<le> NumEmbeddings env \<and> (\<forall>g<m. length (f ! g) = FeatureSize env g) \<and>
         outs' = map (\<lambda>g. if g < m then (outs ! g)[k := map (SerializeFeatures env) (f ! g)] else outs ! g)
                   [0..<NumEmbeddings env]"
proof (induction m arbitrary: outs')
  case 0
  then show ?case using sh by (auto simp: shaped_def intro: nth_equalityI)
next
  case (Suc m)
  from Suc.prems(2) obtain o1 where o1: "for_each [0..<m] (PopulateGroup env f k) outs = Inr o1"
    and step: "PopulateGroup env f k m o1 = Inr outs'"
    by (auto simp: for_each_append split: sum.splits)
  from Suc.IH[OF _ o1] Suc.prems(1) have ih: "m \<le> NumEmbeddings env"
    "\<forall>g<m. length (f ! g) = FeatureSize env g"
    "o1 = map (\<lambda>g. if g < m then (outs ! g)[k := map (SerializeFeatures env) (f ! g)] else outs ! g)
                   [0..<NumEmbeddings env]"
    by auto
  have len1: "length o1 = NumEmbeddings env" using ih(3) by simp
  from step have chk: "length (f ! m) = FeatureSize env m" and m: "m < NumEmbeddings env"
    by (auto simp: PopulateGroup_def Let_def len1 split: if_splits)
  have o1m: "o1 ! m = outs ! m" using ih(3) m by simp
  have rows: "k < length (outs ! m)" "length (outs ! m ! k) = length (f ! m)"
    using sh m k chk by (auto simp: shaped_def)
  from step have "outs' = o1[m := WriteRow env (f ! m) (outs ! m) k]"
    by (auto simp: PopulateGroup_def Let_def o1m split: if_splits)
  then have "outs' = o1[m := (outs ! m)[k := map (SerializeFeatures env) (f ! m)]]"
    using WriteRow_eq[of k "outs ! m" "f ! m" env] rows by simp
  then have "outs' = map (\<lambda>g. if g < Suc m then (outs ! g)[k := map (SerializeFeatures env) (f ! g)] else outs ! g)
                   [0..<NumEmbeddings env]"
    using m ih(3) by (auto intro!: nth_equalityI simp: nth_list_update less_Suc_eq)
  then show ?case using m ih(2) chk by (auto simp: less_Suc_eq)
qed

lemma live_slots_Suc:
  "live_slots r (Suc n) = live_slots r n @ (case state r n of None \<Rightarrow> [] | Some st \<Rightarrow> [(workspaces r ! n, st)])"
  by (simp add: live_slots_def)

lemma live_slots_0 [simp]: "live_slots r 0 = []"
  by (simp add: live_slots_def)

lemma length_live_slots:
  "n \<le> length (states r) \<Longrightarrow> length (live_slots r n) = length (filter (\<lambda>s. s \<noteq> None) (take n (states r)))"
proof (induction n)
  case 0
  then show ?case by simp
next
  case (Suc n)
  then show ?case
    by (auto simp: live_slots_Suc take_Suc_conv_app_nth state_def split: option.splits)
qed

lemma count_occupied_cong:
  "map (\<lambda>s. s = None) xs = map (\<lambda>s. s = None) ys \<Longrightarrow>
   length (filter (\<lambda>s. s \<noteq> None) xs) = length (filter (\<lambda>s. s \<noteq> None) ys)"
  by (induction xs arbitrary: ys) auto

lemma batch_size_occupied:
  assumes "reader_inv r"
  shows "batch_size r = length (occupied r)"
  using assms length_live_slots[of "max_batch_size r" r]
    count_occupied_cong[of "sentences (sentence_batch r)" "states r"]
  by (simp add: batch_size_def SentenceBatch_size_def occupied_def reader_inv_def)

lemma live_slots_mono: "n \<le> m \<Longrightarrow> length (live_slots r n) \<le> length (live_slots r m)"
  by (induction m) (auto simp: live_slots_Suc le_Suc_eq)

lemma length_FeatureRow:
  "features_ok env p \<Longrightarrow> length (FeatureRow env g p) = FeatureSize env g"
  by (auto simp: features_ok_def FeatureRow_def Let_def)

lemma update_padded:
  assumes "length A = k" "k < n"
  shows "(A @ replicate (n - k) d)[k := v] = (A @ [v]) @ replicate (n - Suc k) d"
proof -
  have "replicate (n - k) d = d # replicate (n - Suc k) d"
    using assms(2) by (metis Suc_diff_Suc replicate_Suc)
  then show ?thesis using assms(1) by (simp add: list_update_append)
qed

lemma padded_split:
  assumes "k < n"
  shows "A @ replicate (n - k) d = (A @ [d]) @ replicate (n - Suc k) d"
proof -
  have "replicate (n - k) d = d # replicate (n - Suc k) d"
    using assms by (metis Suc_diff_Suc replicate_Suc)
  then show ?thesis by simp
qed

lemma shaped_feature_rows:
  assumes "\<forall>p\<in>set ps. features_ok env p" "length ps \<le> n"
  shows "shaped env n (feature_rows env n ps)"
  using assms
  by (auto simp: shaped_def feature_rows_def nth_append length_FeatureRow)

lemma feature_rows_snoc:
  assumes k1: "length ps < n"
  shows "map (\<lambda>g. if g < length (ExtractSparseFeatures env w st)
                   then (feature_rows env n ps ! g)
                          [length ps := map (SerializeFeatures env) (ExtractSparseFeatures env w st ! g)]
                   else feature_rows env n ps ! g) [0..<NumEmbeddings env]
         = feature_rows env n (ps @ [(w, st)])"
  unfolding feature_rows_def
proof (rule nth_equalityI, goal_cases)
  case 1
  show ?case by simp
next
  case (2 g)
  let ?f = "ExtractSparseFeatures env w st"
  from 2 have g: "g < NumEmbeddings env" by simp
  let ?A = "map (FeatureRow env g) ps"
  have lenA: "length ?A = length ps" by simp
  show ?case
  proof (cases "g < length ?f")
    case True
    then have "FeatureRow env g (w, st) = map (SerializeFeatures env) (?f ! g)"
      by (simp add: FeatureRow_def)
    then show ?thesis
      using g True update_padded[OF lenA k1] by simp
  next
    case False
    then have "FeatureRow env g (w, st) = replicate (FeatureSize env g) []"
      by (simp add: FeatureRow_def)
    then show ?thesis
      using g False padded_split[OF k1, of ?A] by simp
  qed
qed

lemma live_slots_below_batch_size:
  assumes "reader_inv r" "n < max_batch_size r" "state r n = Some st"
  shows "length (live_slots r n) < batch_size r"
proof -
  have "length (live_slots r (Suc n)) \<le> length (occupied r)"
    unfolding occupied_def using assms(2) by (intro live_slots_mono) simp
  then show ?thesis
    using assms(1,3) batch_size_occupied[OF assms(1)] by (simp add: live_slots_Suc)
qed

lemma Populate_prefix:
  assumes inv: "reader_inv r"
  shows "n \<le> max_batch_size r \<Longrightarrow>
         for_each [0..<n] (PopulateState env r) (0, AllocateFeatureOutputs env r) = Inr (k, outs) \<Longrightarrow>
         k = length (live_slots r n) \<and> (\<forall>p\<in>set (live_slots r n). features_ok env p) \<and>
         outs = feature_rows env (batch_size r) (live_slots r n)"
proof (induction n arbitrary: k outs)
  case 0
  then show ?case
    by (simp add: AllocateFeatureOutputs_def feature_rows_def batch_size_def)
next
  case (Suc n)
  let ?size = "batch_size r"
  from Suc.prems(2) obtain k1 o1
    where pre: "for_each [0..<n] (PopulateState env r) (0, AllocateFeatureOutputs env r) = Inr (k1, o1)"
      and step: "PopulateState env r n (k1, o1) = Inr (k, outs)"
    by (auto simp: for_each_append split: sum.splits)
  from Suc.IH[OF _ pre] Suc.prems(1)
  have ih: "k1 = length (live_slots r n)" "\<forall>p\<in>set (live_slots r n). features_ok env p"
    "o1 = feature_rows env ?size (live_slots r n)"
    by auto
  show ?case
  proof (cases "state r n")
    case None
    with step ih show ?thesis by (simp add: live_slots_Suc)
  next
    case (Some st)
    let ?p = "(workspaces r ! n, st)"
    let ?f = "ExtractSparseFeatures env (workspaces r ! n) st"
    have live: "live_slots r (Suc n) = live_slots r n @ [?p]"
      using Some by (simp add: live_slots_Suc)
    have k1: "k1 < ?size"
      using live_slots_below_batch_size[OF inv _ Some] Suc.prems(1) ih(1) by simp
    from step Some have slot: "PopulateSlot env ?f k1 o1 = Inr outs" and k: "k = Suc k1"
      by (auto split: sum.splits)
    have sh: "shaped env ?size o1"
      unfolding ih(3) using ih(1,2) k1 by (intro shaped_feature_rows) auto
    from PopulateSlot_prefix[OF sh k1 _ slot[unfolded PopulateSlot_def]]
    have res: "length ?f \<le> NumEmbeddings env" "\<forall>g<length ?f. length (?f ! g) = FeatureSize env g"
      "outs = map (\<lambda>g. if g < length ?f then (o1 ! g)[k1 := map (SerializeFeatures env) (?f ! g)] else o1 ! g)
                   [0..<NumEmbeddings env]"
      by auto
    have ok: "features_ok env ?p"
      using res(1,2) by (simp add: features_ok_def)
    have "outs = feature_rows env ?size (live_slots r n @ [?p])"
      unfolding res(3) ih(3) ih(1) using k1[unfolded ih(1)] by (rule feature_rows_snoc)
    then show ?thesis using k ih(1,2) ok live by auto
  qed
qed

lemma PopulateSlot_total:
  assumes sh: "shaped env n outs" and k: "k < n"
  shows "m \<le> NumEmbeddings env \<Longrightarrow>
         for_each [0..<m] (PopulateGroup env f k) outs =
           (if \<forall>g<m. length (f ! g) = FeatureSize env g
            then Inr (map (\<lambda>g. if g < m then (outs ! g)[k := map (SerializeFeatures env) (f ! g)]
                                else outs ! g) [0..<NumEmbeddings env])
            else Inl CheckFailure)"
proof (induction m)
  case 0
  then show ?case using sh by (auto simp: shaped_def intro: nth_equalityI)
next
  case (Suc m)
  let ?o1 = "map (\<lambda>g. if g < m then (outs ! g)[k := map (SerializeFeatures env) (f ! g)] else outs ! g)
                   [0..<NumEmbeddings env]"
  have m: "m < NumEmbeddings env" using Suc.prems by simp
  show ?case
  proof (cases "\<forall>g<m. length (f ! g) = FeatureSize env g")
    case False
    then have neg: "\<not> (\<forall>g<Suc m. length (f ! g) = FeatureSize env g)"
      using less_Suc_eq by auto
    have "for_each [0..<m] (PopulateGroup env f k) outs = Inl CheckFailure"
      using Suc.IH Suc.prems False by (simp del: upt_Suc)
    then have "for_each [0..<Suc m] (PopulateGroup env f k) outs = Inl CheckFailure"
      by (simp add: for_each_append)
    then show ?thesis using neg by (simp only: if_False)
  next
    case True
    then have pre: "for_each [0..<m] (PopulateGroup env f k) outs = Inr ?o1"
      using Suc.IH Suc.prems by simp
    show ?thesis
    proof (cases "length (f ! m) = FeatureSize env m")
      case False
      then have neg: "\<not> (\<forall>g<Suc m. length (f ! g) = FeatureSize env g)" by auto
      have "for_each [0..<Suc m] (PopulateGroup env f k) outs = Inl CheckFailure"
        using False pre by (simp add: for_each_append PopulateGroup_def)
      then show ?thesis using neg by (simp only: if_False)
    next
      case chk: True
      have o1m: "?o1 ! m = outs ! m" using m by simp
      have rows: "k < length (outs ! m)" "length (outs ! m ! k) = length (f ! m)"
        using sh m k chk by (auto simp: shaped_def)
      have "PopulateGroup env f k m ?o1 = Inr (?o1[m := WriteRow env (f ! m) (outs ! m) k])"
        using chk m rows(1) unfolding PopulateGroup_def Let_def o1m by simp
      also have "?o1[m := WriteRow env (f ! m) (outs ! m) k]
                   = ?o1[m := (outs ! m)[k := map (SerializeFeatures env) (f ! m)]]"
        using WriteRow_eq[of k "outs ! m" "f ! m" env] rows by simp
      also have "\<dots> = map (\<lambda>g. if g < Suc m then (outs ! g)[k := map (SerializeFeatures env) (f ! g)]
                                else outs ! g) [0..<NumEmbeddings env]"
        using m by (auto intro!: nth_equalityI simp: nth_list_update less_Suc_eq)
      finally have "PopulateGroup env f k m ?o1 = Inr (map (\<lambda>g. if g < Suc m
              then (outs ! g)[k := map (SerializeFeatures env) (f ! g)]
              else outs ! g) [0..<NumEmbeddings env])" .
      then have "for_each [0..<Suc m] (PopulateGroup env f k) outs = Inr (map (\<lambda>g. if g < Suc m
              then (outs ! g)[k := map (SerializeFeatures env) (f ! g)]
              else outs ! g) [0..<NumEmbeddings env])"
        using pre by (simp add: for_each_append)
      moreover have "\<forall>g<Suc m. length (f ! g) = FeatureSize env g"
        using True chk by (auto simp: less_Suc_eq)
      ultimately show ?thesis by (simp only: if_P)
    qed
  qed
qed

lemma Populate_total:
  assumes inv: "reader_inv r"
  shows "n \<le> max_batch_size r \<Longrightarrow>
         \<forall>p\<in>set (live_slots r n). length (ExtractSparseFeatures env (fst p) (snd p)) \<le> NumEmbeddings env \<Longrightarrow>
         for_each [0..<n] (PopulateState env r) (0, AllocateFeatureOutputs env r) =
           (if \<forall>p\<in>set (live_slots r n). features_ok env p
            then Inr (length (live_slots r n), feature_rows env (batch_size r) (live_slots r n))
            else Inl CheckFailure)"
proof (induction n)
  case 0
  then show ?case
    by (simp add: AllocateFeatureOutputs_def feature_rows_def batch_size_def)
next
  case (Suc n)
  let ?size = "batch_size r"
  let ?loop = "\<lambda>n. for_each [0..<n] (PopulateState env r) (0, AllocateFeatureOutputs env r)"
  have sub: "set (live_slots r n) \<subseteq> set (live_slots r (Suc n))"
    by (auto simp: live_slots_Suc)
  have ih: "?loop n = (if \<forall>p\<in>set (live_slots r n). features_ok env p
            then Inr (length (live_slots r n), feature_rows env ?size (live_slots r n))
            else Inl CheckFailure)"
  proof (rule Suc.IH)
    show "n \<le> max_batch_size r" using Suc.prems(1) by simp
    show "\<forall>p\<in>set (live_slots r n).
           length (ExtractSparseFeatures env (fst p) (snd p)) \<le> NumEmbeddings env"
      using Suc.prems(2) sub by blast
  qed
  show ?case
  proof (cases "\<forall>p\<in>set (live_slots r n). features_ok env p")
    case False
    then have neg: "\<not> (\<forall>p\<in>set (live_slots r (Suc n)). features_ok env p)"
      using sub by blast
    have "?loop (Suc n) = Inl CheckFailure"
      using ih False by (simp add: for_each_append)
    then show ?thesis using neg by (simp only: if_False)
  next
    case allok: True
    then have pre: "?loop n = Inr (length (live_slots r n), feature_rows env ?size (live_slots r n))"
      using ih by simp
    show ?thesis
    proof (cases "state r n")
      case None
      then have "live_slots r (Suc n) = live_slots r n" by (simp add: live_slots_Suc)
      moreover have "?loop (Suc n) = ?loop n"
        using pre None by (simp add: for_each_append)
      ultimately show ?thesis using ih by simp
    next
      case (Some st)
      let ?p = "(workspaces r ! n, st)"
      let ?f = "ExtractSparseFeatures env (workspaces r ! n) st"
      let ?k1 = "length (live_slots r n)"
      let ?o1 = "feature_rows env ?size (live_slots r n)"
      have live: "live_slots r (Suc n) = live_slots r n @ [?p]"
        using Some by (simp add: live_slots_Suc)
      have k1: "?k1 < ?size"
        using live_slots_below_batch_size[OF inv _ Some] Suc.prems(1) by simp
      have sh: "shaped env ?size ?o1"
        using allok k1 by (intro shaped_feature_rows) auto
      have f: "length ?f \<le> NumEmbeddings env"
        using Suc.prems(2) live by simp
      have ok_iff: "features_ok env ?p \<longleftrightarrow> (\<forall>g<length ?f. length (?f ! g) = FeatureSize env g)"
        using f by (simp add: features_ok_def Let_def)
      have slot: "PopulateSlot env ?f ?k1 ?o1 =
          (if features_ok env ?p then Inr (feature_rows env ?size (live_slots r n @ [?p]))
           else Inl CheckFailure)"
        unfolding PopulateSlot_def PopulateSlot_total[OF sh k1 f] ok_iff
        using feature_rows_snoc[OF k1, of env "workspaces r ! n" st] by simp
      show ?thesis
      proof (cases "features_ok env ?p")
        case True
        then have "\<forall>p\<in>set (live_slots r (Suc n)). features_ok env p"
          using allok live by simp
        moreover have "?loop (Suc n) = Inr (length (live_slots r (Suc n)),
            feature_rows env ?size (live_slots r (Suc n)))"
          using pre Some slot True live by (simp add: for_each_append)
        ultimately show ?thesis by (simp only: if_P)
      next
        case False
        then have neg: "\<not> (\<forall>p\<in>set (live_slots r (Suc n)). features_ok env p)"
          using live by simp
        have "?loop (Suc n) = Inl CheckFailure"
          using pre Some slot False by (simp add: for_each_append)
        then show ?thesis using neg by (simp only: if_False)
      qed
    qed
  qed
qed

lemma reader_inv_lengths:
  assumes "reader_inv r"
  shows "length (states r) = max_batch_size r" "length (workspaces r) = max_batch_size r"
    "length (sentences (sentence_batch r)) = max_batch_size r"
    "cursor (sentence_batch r) \<le> length (corpus (sentence_batch r))"
proof -
  show "length (states r) = max_batch_size r" "length (workspaces r) = max_batch_size r"
    "cursor (sentence_batch r) \<le> length (corpus (sentence_batch r))"
    using assms by (simp_all add: reader_inv_def)
  have "length (map (\<lambda>s. s = None) (sentences (sentence_batch r))) = length (map (\<lambda>s. s = None) (states r))"
    using assms by (simp add: reader_inv_def)
  then show "length (sentences (sentence_batch r)) = max_batch_size r"
    using assms by (simp add: reader_inv_def)
qed

lemma AdvanceSentence_more:
  assumes "reader_inv r" "i < max_batch_size r" "cursor (sentence_batch r) < length (corpus (sentence_batch r))"
  shows "AdvanceSentence env r i =
     r\<lparr>states := (states r)[i := Some (NewParserState env (corpus (sentence_batch r) ! cursor (sentence_batch r)))],
       workspaces := (workspaces r)[i := Preprocess env (ResetWorkspace env)
            (NewParserState env (corpus (sentence_batch r) ! cursor (sentence_batch r)))],
       sentence_batch := (sentence_batch r)\<lparr>
          sentences := (sentences (sentence_batch r))[i := Some (corpus (sentence_batch r) ! cursor (sentence_batch r))],
          cursor := Suc (cursor (sentence_batch r))\<rparr>\<rparr>"
  using assms(2,3) reader_inv_lengths[OF assms(1)]
  by (simp add: AdvanceSentence_def SentenceBatch_AdvanceSentence_def SentenceBatch_sentence_def Let_def)

lemma AdvanceSentence_exhausted:
  assumes "\<not> cursor (sentence_batch r) < length (corpus (sentence_batch r))"
  shows "AdvanceSentence env r i =
     r\<lparr>states := (states r)[i := None],
       sentence_batch := (sentence_batch r)\<lparr>sentences := (sentences (sentence_batch r))[i := None]\<rparr>\<rparr>"
  using assms
  by (simp add: AdvanceSentence_def SentenceBatch_AdvanceSentence_def Let_def)

lemma reader_inv_AdvanceSentence:
  assumes "reader_inv r" "i < max_batch_size r"
  shows "reader_inv (AdvanceSentence env r i)"
proof (cases "cursor (sentence_batch r) < length (corpus (sentence_batch r))")
  case True
  show ?thesis
    unfolding AdvanceSentence_more[OF assms True]
    using assms True by (simp add: reader_inv_def map_update)
next
  case False
  show ?thesis
    unfolding AdvanceSentence_exhausted[OF False]
    using assms by (simp add: reader_inv_def map_update)
qed

lemma AdvanceSentence_frame:
  "max_batch_size (AdvanceSentence env r i) = max_batch_size r"
  "num_epochs (AdvanceSentence env r i) = num_epochs r"
  "corpus (sentence_batch (AdvanceSentence env r i)) = corpus (sentence_batch r)"
  "ParsingReader.more (AdvanceSentence env r i) = ParsingReader.more r"
  by (simp_all add: AdvanceSentence_def SentenceBatch_AdvanceSentence_def Let_def split: option.splits)

lemma state_nth: "i < length (states r) \<Longrightarrow> state r i = states r ! i"
  by (simp add: state_def)

lemma AdvanceWhileFinal_idle:
  "state r i = None \<or> (\<exists>st. state r i = Some st \<and> \<not> IsFinalState env st) \<Longrightarrow>
   AdvanceWhileFinal env r i = r"
  by (subst AdvanceWhileFinal.simps) (auto split: option.splits)

lemma AdvanceWhileFinal_step:
  "state r i = Some st \<Longrightarrow> IsFinalState env st \<Longrightarrow>
   AdvanceWhileFinal env r i = AdvanceWhileFinal env (AdvanceSentence env r i) i"
  by (subst AdvanceWhileFinal.simps) simp

lemma AdvanceWhileFinal_final:
  assumes "reader_inv r" "i < max_batch_size r" "state r i = Some st" "IsFinalState env st"
  shows "(case skip_trivial env (sentence_batch r) of
            [] \<Rightarrow> states (AdvanceWhileFinal env r i) = (states r)[i := None] \<and>
                  cursor (sentence_batch (AdvanceWhileFinal env r i)) = length (corpus (sentence_batch r))
          | s # rest \<Rightarrow>
              states (AdvanceWhileFinal env r i) = (states r)[i := Some (NewParserState env s)] \<and>
              workspaces (AdvanceWhileFinal env r i) ! i
                = Preprocess env (ResetWorkspace env) (NewParserState env s) \<and>
              sentences (sentence_batch (AdvanceWhileFinal env r i)) ! i = Some s \<and>
              cursor (sentence_batch (AdvanceWhileFinal env r i))
                = length (corpus (sentence_batch r)) - length rest) \<and>
         (\<forall>j. j \<noteq> i \<longrightarrow> workspaces (AdvanceWhileFinal env r i) ! j = workspaces r ! j) \<and>
         reader_inv (AdvanceWhileFinal env r i)"
  using assms
proof (induction "length (corpus (sentence_batch r)) - cursor (sentence_batch r)" arbitrary: r st)
  case 0
  let ?b = "sentence_batch r"
  have ex: "\<not> cursor ?b < length (corpus ?b)" using 0 by simp
  have len: "length (states r) = max_batch_size r"
    using 0 by (simp add: reader_inv_lengths)
  let ?r1 = "AdvanceSentence env r i"
  have r1: "state ?r1 i = None"
    unfolding AdvanceSentence_exhausted[OF ex] using len 0 by (simp add: state_def)
  have eq: "AdvanceWhileFinal env r i = ?r1"
    using AdvanceWhileFinal_step[OF "0.prems"(3,4)] AdvanceWhileFinal_idle[of ?r1 i env] r1 by simp
  have skip: "skip_trivial env ?b = []"
    using ex by (simp add: skip_trivial_def)
  have "cursor ?b = length (corpus ?b)"
    using ex reader_inv_lengths(4)[OF "0.prems"(1)] by simp
  then show ?case
    unfolding eq skip using reader_inv_AdvanceSentence[OF "0.prems"(1,2), of env]
    by (simp add: AdvanceSentence_exhausted[OF ex])
next
  case (Suc n)
  let ?b = "sentence_batch r"
  let ?c = "corpus ?b ! cursor ?b"
  have more: "cursor ?b < length (corpus ?b)" using Suc.hyps(2) by simp
  have len: "length (states r) = max_batch_size r" "length (workspaces r) = max_batch_size r"
     "length (sentences ?b) = max_batch_size r"
    using Suc.prems by (simp_all add: reader_inv_lengths)
  let ?r1 = "AdvanceSentence env r i"
  note r1_eq = AdvanceSentence_more[OF Suc.prems(1,2) more, of env]
  have inv1: "reader_inv ?r1" using Suc.prems by (intro reader_inv_AdvanceSentence)
  have st1: "state ?r1 i = Some (NewParserState env ?c)"
    unfolding r1_eq using len Suc.prems(2) by (simp add: state_def)
  have step: "AdvanceWhileFinal env r i = AdvanceWhileFinal env ?r1 i"
    using AdvanceWhileFinal_step[OF Suc.prems(3,4)] .
  have dr: "drop (cursor ?b) (corpus ?b) = ?c # drop (Suc (cursor ?b)) (corpus ?b)"
    using more by (simp add: Cons_nth_drop_Suc)
  show ?case
  proof (cases "IsFinalState env (NewParserState env ?c)")
    case False
    have eq: "AdvanceWhileFinal env r i = ?r1"
      unfolding step using AdvanceWhileFinal_idle[of ?r1 i env] st1 False by simp
    have skip: "skip_trivial env ?b = ?c # drop (Suc (cursor ?b)) (corpus ?b)"
      using False by (simp add: skip_trivial_def dr)
    have "Suc (cursor ?b) = length (corpus ?b) - length (drop (Suc (cursor ?b)) (corpus ?b))"
      using more by simp
    then show ?thesis
      unfolding eq skip using inv1 len Suc.prems(2)
      by (simp add: r1_eq)
  next
    case True
    have skip: "skip_trivial env ?b = skip_trivial env (sentence_batch ?r1)"
      using True by (simp add: skip_trivial_def dr r1_eq)
    have n: "n = length (corpus (sentence_batch ?r1)) - cursor (sentence_batch ?r1)"
      using Suc.hyps(2) by (simp add: r1_eq)
    have mb: "i < max_batch_size ?r1" using Suc.prems(2) by (simp add: AdvanceSentence_frame)
    note ih = Suc.hyps(1)[OF n inv1 mb st1 True]
    have corp: "corpus (sentence_batch ?r1) = corpus ?b" by (simp add: AdvanceSentence_frame)
    have st_upd: "\<And>x. (states ?r1)[i := x] = (states r)[i := x]"
      by (simp add: r1_eq)
    have ws: "\<And>j. j \<noteq> i \<Longrightarrow> workspaces ?r1 ! j = workspaces r ! j"
      by (simp add: r1_eq)
    show ?thesis
      unfolding step skip using ih
      by (auto simp: corp st_upd ws split: list.splits)
  qed
qed

lemma skip_trivial_hd:
  "skip_trivial env b = s # rest \<Longrightarrow> \<not> IsFinalState env (NewParserState env s)"
  unfolding skip_trivial_def by (metis hd_dropWhile list.sel(1) list.simps(3))

lemma AdvanceWhileFinal_frame:
  "max_batch_size (AdvanceWhileFinal env r i) = max_batch_size r \<and>
   num_epochs (AdvanceWhileFinal env r i) = num_epochs r \<and>
   corpus (sentence_batch (AdvanceWhileFinal env r i)) = corpus (sentence_batch r) \<and>
   ParsingReader.more (AdvanceWhileFinal env r i) = ParsingReader.more r"
proof (induction env r i rule: AdvanceWhileFinal.induct)
  case (1 env r i)
  show ?case
  proof (cases "state r i")
    case None
    then show ?thesis by (simp add: AdvanceWhileFinal_idle)
  next
    case (Some st)
    show ?thesis
    proof (cases "IsFinalState env st")
      case True
      with 1[OF Some True] Some show ?thesis
        by (simp add: AdvanceWhileFinal_step AdvanceSentence_frame)
    next
      case False
      with Some show ?thesis by (simp add: AdvanceWhileFinal_idle)
    qed
  qed
qed

lemma AdvanceWhileFinal_slot:
  assumes "reader_inv r" "i < max_batch_size r"
  shows "reader_inv (AdvanceWhileFinal env r i)"
    and "(case state (AdvanceWhileFinal env r i) i of None \<Rightarrow> True | Some st \<Rightarrow> \<not> IsFinalState env st)"
    and "j \<noteq> i \<Longrightarrow> states (AdvanceWhileFinal env r i) ! j = states r ! j"
    and "length (states (AdvanceWhileFinal env r i)) = length (states r)"
proof -
  have len: "length (states r) = max_batch_size r" using assms by (simp add: reader_inv_lengths)
  have "reader_inv (AdvanceWhileFinal env r i) \<and>
        (case state (AdvanceWhileFinal env r i) i of None \<Rightarrow> True | Some st \<Rightarrow> \<not> IsFinalState env st) \<and>
        (j \<noteq> i \<longrightarrow> states (AdvanceWhileFinal env r i) ! j = states r ! j) \<and>
        length (states (AdvanceWhileFinal env r i)) = length (states r)"
  proof (cases "state r i = None \<or> (\<exists>st. state r i = Some st \<and> \<not> IsFinalState env st)")
    case True
    then show ?thesis using assms AdvanceWhileFinal_idle[OF True] by auto
  next
    case False
    then obtain st where st: "state r i = Some st" "IsFinalState env st" by auto
    note fin = AdvanceWhileFinal_final[OF assms st]
    show ?thesis
    proof (cases "skip_trivial env (sentence_batch r)")
      case Nil
      with fin show ?thesis using len assms(2) by (simp add: state_def)
    next
      case (Cons s rest)
      with fin skip_trivial_hd[OF Cons] show ?thesis using len assms(2) by (simp add: state_def)
    qed
  qed
  then show "reader_inv (AdvanceWhileFinal env r i)"
    and "(case state (AdvanceWhileFinal env r i) i of None \<Rightarrow> True | Some st \<Rightarrow> \<not> IsFinalState env st)"
    and "j \<noteq> i \<Longrightarrow> states (AdvanceWhileFinal env r i) ! j = states r ! j"
    and "length (states (AdvanceWhileFinal env r i)) = length (states r)"
    by auto
qed

lemma AdvanceWhileFinal_settled:
  "settled env (state r i) \<Longrightarrow> AdvanceWhileFinal env r i = r"
  by (rule AdvanceWhileFinal_idle) (auto simp: settled_def split: option.splits)

lemma AdvancePass_prefix:
  assumes inv: "reader_inv r"
  shows "n \<le> max_batch_size r \<Longrightarrow>
     reader_inv (foldl (AdvanceWhileFinal env) r [0..<n]) \<and>
     max_batch_size (foldl (AdvanceWhileFinal env) r [0..<n]) = max_batch_size r \<and>
     num_epochs (foldl (AdvanceWhileFinal env) r [0..<n]) = num_epochs r \<and>
     corpus (sentence_batch (foldl (AdvanceWhileFinal env) r [0..<n])) = corpus (sentence_batch r) \<and>
     ParsingReader.more (foldl (AdvanceWhileFinal env) r [0..<n]) = ParsingReader.more r \<and>
     (\<forall>j<n. settled env (state (foldl (AdvanceWhileFinal env) r [0..<n]) j)) \<and>
     (\<forall>j<max_batch_size r. n \<le> j \<or> settled env (state r j) \<longrightarrow>
          state (foldl (AdvanceWhileFinal env) r [0..<n]) j = state r j)"
proof (induction n)
  case 0
  then show ?case using inv by simp
next
  case (Suc n)
  let ?rn = "foldl (AdvanceWhileFinal env) r [0..<n]"
  let ?r' = "AdvanceWhileFinal env ?rn n"
  have ih: "reader_inv ?rn" "max_batch_size ?rn = max_batch_size r" "num_epochs ?rn = num_epochs r"
    "corpus (sentence_batch ?rn) = corpus (sentence_batch r)"
    "ParsingReader.more ?rn = ParsingReader.more r"
    "\<forall>j<n. settled env (state ?rn j)"
    "\<forall>j<max_batch_size r. n \<le> j \<or> settled env (state r j) \<longrightarrow> state ?rn j = state r j"
    using Suc by simp_all
  have n: "n < max_batch_size ?rn" using Suc.prems ih(2) by simp
  note slot = AdvanceWhileFinal_slot[OF ih(1) n, where env=env]
  have len: "length (states ?rn) = max_batch_size r" "length (states ?r') = max_batch_size r"
    using ih(1,2) slot(4) by (simp_all add: reader_inv_lengths)
  have other: "\<And>j. j \<noteq> n \<Longrightarrow> state ?r' j = state ?rn j"
    using slot(3,4) by (simp add: state_def)
  have eq: "foldl (AdvanceWhileFinal env) r [0..<Suc n] = ?r'" by simp
  have a: "\<forall>j<Suc n. settled env (state ?r' j)"
  proof (intro allI impI)
    fix j assume "j < Suc n"
    then consider "j = n" | "j < n" by linarith
    then show "settled env (state ?r' j)"
    proof cases
      case 1
      then show ?thesis using slot(2) by (simp add: settled_def)
    next
      case 2
      then show ?thesis using other[of j] ih(6) by simp
    qed
  qed
  have b: "\<forall>j<max_batch_size r. Suc n \<le> j \<or> settled env (state r j) \<longrightarrow> state ?r' j = state r j"
  proof (intro allI impI)
    fix j assume j: "j < max_batch_size r" and c: "Suc n \<le> j \<or> settled env (state r j)"
    show "state ?r' j = state r j"
    proof (cases "j = n")
      case True
      then have "settled env (state r n)" using c by auto
      moreover have "state ?rn n = state r n" using ih(7) j True by auto
      ultimately have "?r' = ?rn" using AdvanceWhileFinal_settled[of env ?rn n] by simp
      then show ?thesis using True \<open>state ?rn n = state r n\<close> by simp
    next
      case False
      then have "state ?r' j = state ?rn j" by (rule other)
      moreover have "state ?rn j = state r j" using ih(7) j c False by auto
      ultimately show ?thesis by simp
    qed
  qed
  show ?case
    unfolding eq using slot(1) ih(2-5) a b AdvanceWhileFinal_frame[of env ?rn n] by simp
qed

lemma live_slots_empty_iff: "live_slots r n = [] \<longleftrightarrow> (\<forall>j<n. state r j = None)"
  by (induction n) (auto simp: live_slots_Suc less_Suc_eq split: option.splits)

lemma batch_size_0_iff:
  assumes "reader_inv r"
  shows "SentenceBatch_size (sentence_batch r) = 0 \<longleftrightarrow> (\<forall>j<max_batch_size r. state r j = None)"
  using batch_size_occupied[OF assms] live_slots_empty_iff[of r "max_batch_size r"]
  by (simp add: batch_size_def occupied_def)

lemma Refill_prefix:
  assumes inv: "reader_inv r" and c0: "cursor (sentence_batch r) = 0"
  shows "n \<le> max_batch_size r \<Longrightarrow>
     reader_inv (foldl (AdvanceSentence env) r [0..<n]) \<and>
     max_batch_size (foldl (AdvanceSentence env) r [0..<n]) = max_batch_size r \<and>
     num_epochs (foldl (AdvanceSentence env) r [0..<n]) = num_epochs r \<and>
     corpus (sentence_batch (foldl (AdvanceSentence env) r [0..<n])) = corpus (sentence_batch r) \<and>
     ParsingReader.more (foldl (AdvanceSentence env) r [0..<n]) = ParsingReader.more r \<and>
     cursor (sentence_batch (foldl (AdvanceSentence env) r [0..<n])) = min n (length (corpus (sentence_batch r))) \<and>
     (\<forall>j<n. state (foldl (AdvanceSentence env) r [0..<n]) j =
              (if j < length (corpus (sentence_batch r))
               then Some (NewParserState env (corpus (sentence_batch r) ! j)) else None)) \<and>
     (\<forall>j<n. j < length (corpus (sentence_batch r)) \<longrightarrow>
          workspaces (foldl (AdvanceSentence env) r [0..<n]) ! j =
            Preprocess env (ResetWorkspace env) (NewParserState env (corpus (sentence_batch r) ! j)) \<and>
          sentences (sentence_batch (foldl (AdvanceSentence env) r [0..<n])) ! j =
            Some (corpus (sentence_batch r) ! j)) \<and>
     (\<forall>j<max_batch_size r. n \<le> j \<longrightarrow> state (foldl (AdvanceSentence env) r [0..<n]) j = state r j)"
proof (induction n)
  case 0
  then show ?case using inv c0 by simp
next
  case (Suc n)
  let ?C = "corpus (sentence_batch r)"
  let ?rn = "foldl (AdvanceSentence env) r [0..<n]"
  let ?r' = "AdvanceSentence env ?rn n"
  have ih: "reader_inv ?rn" "max_batch_size ?rn = max_batch_size r" "num_epochs ?rn = num_epochs r"
    "corpus (sentence_batch ?rn) = ?C"
    "ParsingReader.more ?rn = ParsingReader.more r"
    "cursor (sentence_batch ?rn) = min n (length ?C)"
    "\<forall>j<n. state ?rn j = (if j < length ?C then Some (NewParserState env (?C ! j)) else None)"
    "\<forall>j<n. j < length ?C \<longrightarrow>
          workspaces ?rn ! j = Preprocess env (ResetWorkspace env) (NewParserState env (?C ! j)) \<and>
          sentences (sentence_batch ?rn) ! j = Some (?C ! j)"
    "\<forall>j<max_batch_size r. n \<le> j \<longrightarrow> state ?rn j = state r j"
    using Suc by simp_all
  have n: "n < max_batch_size ?rn" using Suc.prems ih(2) by simp
  have len: "length (states ?rn) = max_batch_size r" "length (workspaces ?rn) = max_batch_size r"
    "length (sentences (sentence_batch ?rn)) = max_batch_size r"
    using reader_inv_lengths[OF ih(1)] ih(2) by simp_all
  have eq: "foldl (AdvanceSentence env) r [0..<Suc n] = ?r'" by simp
  have inv': "reader_inv ?r'" using ih(1) n by (rule reader_inv_AdvanceSentence)
  show ?case
  proof (cases "n < length ?C")
    case True
    then have more: "cursor (sentence_batch ?rn) < length (corpus (sentence_batch ?rn))"
      and cur: "cursor (sentence_batch ?rn) = n"
      using ih(4,6) by simp_all
    note r' = AdvanceSentence_more[OF ih(1) n more, of env, unfolded cur ih(4)]
    show ?thesis
      unfolding eq using inv' True ih(2-9) len n Suc.prems
      by (auto simp: r' state_def nth_list_update less_Suc_eq)
  next
    case False
    then have ex: "\<not> cursor (sentence_batch ?rn) < length (corpus (sentence_batch ?rn))"
      and cur: "cursor (sentence_batch ?rn) = length ?C"
      using ih(4,6) by simp_all
    note r' = AdvanceSentence_exhausted[OF ex, of env n]
    show ?thesis
      unfolding eq using inv' False ih(2-9) len n Suc.prems cur
      by (auto simp: r' state_def nth_list_update less_Suc_eq)
  qed
qed

lemma RewindIfEmpty_keep:
  assumes "reader_inv r" "\<not> (\<forall>j<max_batch_size r. state r j = None)"
  shows "RewindIfEmpty env r = r"
proof -
  have "SentenceBatch_size (sentence_batch r) \<noteq> 0"
    using assms(2) batch_size_0_iff[OF assms(1)] by blast
  then show ?thesis by (simp add: RewindIfEmpty_def)
qed

lemma RewindIfEmpty_rewind:
  assumes inv: "reader_inv r" and empty: "\<forall>j<max_batch_size r. state r j = None"
  shows "reader_inv (RewindIfEmpty env r)"
    "max_batch_size (RewindIfEmpty env r) = max_batch_size r"
    "num_epochs (RewindIfEmpty env r) = num_epochs r + 1"
    "corpus (sentence_batch (RewindIfEmpty env r)) = corpus (sentence_batch r)"
    "ParsingReader.more (RewindIfEmpty env r) = ParsingReader.more r"
    "cursor (sentence_batch (RewindIfEmpty env r)) = min (max_batch_size r) (length (corpus (sentence_batch r)))"
    "\<forall>j<max_batch_size r. state (RewindIfEmpty env r) j =
              (if j < length (corpus (sentence_batch r))
               then Some (NewParserState env (corpus (sentence_batch r) ! j)) else None)"
    "\<forall>j<max_batch_size r. j < length (corpus (sentence_batch r)) \<longrightarrow>
          workspaces (RewindIfEmpty env r) ! j =
            Preprocess env (ResetWorkspace env) (NewParserState env (corpus (sentence_batch r) ! j)) \<and>
          sentences (sentence_batch (RewindIfEmpty env r)) ! j = Some (corpus (sentence_batch r) ! j)"
proof -
  let ?r2 = "r\<lparr>num_epochs := num_epochs r + 1,
              sentence_batch := SentenceBatch_Rewind (sentence_batch r)\<rparr>"
  have eq: "RewindIfEmpty env r = foldl (AdvanceSentence env) ?r2 [0..<max_batch_size r]"
    using empty batch_size_0_iff[OF inv] by (simp add: RewindIfEmpty_def Let_def)
  have inv2: "reader_inv ?r2" using inv by (simp add: reader_inv_def SentenceBatch_Rewind_def)
  have c0: "cursor (sentence_batch ?r2) = 0" by (simp add: SentenceBatch_Rewind_def)
  have le: "max_batch_size r \<le> max_batch_size ?r2" by simp
  note P = Refill_prefix[OF inv2 c0 le, of env, folded eq]
  show "reader_inv (RewindIfEmpty env r)"
    "max_batch_size (RewindIfEmpty env r) = max_batch_size r"
    "num_epochs (RewindIfEmpty env r) = num_epochs r + 1"
    "corpus (sentence_batch (RewindIfEmpty env r)) = corpus (sentence_batch r)"
    "ParsingReader.more (RewindIfEmpty env r) = ParsingReader.more r"
    "cursor (sentence_batch (RewindIfEmpty env r)) = min (max_batch_size r) (length (corpus (sentence_batch r)))"
    "\<forall>j<max_batch_size r. state (RewindIfEmpty env r) j =
              (if j < length (corpus (sentence_batch r))
               then Some (NewParserState env (corpus (sentence_batch r) ! j)) else None)"
    "\<forall>j<max_batch_size r. j < length (corpus (sentence_batch r)) \<longrightarrow>
          workspaces (RewindIfEmpty env r) ! j =
            Preprocess env (ResetWorkspace env) (NewParserState env (corpus (sentence_batch r) ! j)) \<and>
          sentences (sentence_batch (RewindIfEmpty env r)) ! j = Some (corpus (sentence_batch r) ! j)"
    using P by (simp_all add: SentenceBatch_Rewind_def)
qed

lemma map_prefix_update:
  "n < length xs \<Longrightarrow>
   (map f (take n xs) @ drop n xs)[n := f (xs ! n)] = map f (take (Suc n) xs) @ drop (Suc n) xs"
  by (rule nth_equalityI) (auto simp: nth_append nth_list_update take_Suc_conv_app_nth less_Suc_eq)

lemma map_prefix_keep:
  "n < length xs \<Longrightarrow> f (xs ! n) = xs ! n \<Longrightarrow>
   map f (take n xs) @ drop n xs = map f (take (Suc n) xs) @ drop (Suc n) xs"
  using map_prefix_update[of n xs f]
  by (metis (no_types, lifting) append_eq_conv_conj length_map length_take list_update_id min.absorb2 less_imp_le_nat nth_append_length Cons_nth_drop_Suc)

lemma Gold_prefix:
  "n \<le> length (states r) \<Longrightarrow>
   foldl (Gold_PerformAction env) r [0..<n]
     = r\<lparr>states := map (gold_next env) (take n (states r)) @ drop n (states r)\<rparr>"
proof (induction n)
  case 0
  then show ?case by simp
next
  case (Suc n)
  let ?xs = "states r"
  let ?rn = "r\<lparr>states := map (gold_next env) (take n ?xs) @ drop n ?xs\<rparr>"
  have n: "n < length ?xs" using Suc.prems by simp
  have pre: "foldl (Gold_PerformAction env) r [0..<n] = ?rn" using Suc by simp
  have st: "state ?rn n = ?xs ! n" using n by (simp add: state_def nth_append)
  show ?case
  proof (cases "?xs ! n")
    case None
    then have "Gold_PerformAction env ?rn n = ?rn" using st by (simp add: Gold_PerformAction_def)
    moreover have "gold_next env (?xs ! n) = ?xs ! n" using None by (simp add: gold_next_def)
    ultimately show ?thesis using pre map_prefix_keep[OF n, of "gold_next env"] by simp
  next
    case (Some s)
    then have "Gold_PerformAction env ?rn n
        = ?rn\<lparr>states := (states ?rn)[n := gold_next env (?xs ! n)]\<rparr>"
      using st by (simp add: Gold_PerformAction_def gold_next_def)
    then show ?thesis using pre map_prefix_update[OF n, of "gold_next env"] by simp
  qed
qed

lemma Gold_PerformActions_eq:
  assumes "reader_inv r"
  shows "Gold_PerformActions env r = Inr (r\<lparr>states := map (gold_next env) (states r)\<rparr>)"
  using Gold_prefix[of "max_batch_size r" r env] reader_inv_lengths[OF assms]
  by (simp add: Gold_PerformActions_def)

lemma reader_inv_states_map:
  assumes "reader_inv r" "\<And>s. (f s = None) = (s = None)"
  shows "reader_inv (r\<lparr>states := map f (states r)\<rparr>)"
  using assms by (simp add: reader_inv_def comp_def)

lemma gold_next_None [simp]: "(gold_next env s = None) = (s = None)"
  by (simp add: gold_next_def)

lemma Gold_Add_prefix:
  assumes inv: "reader_inv r"
  shows "n \<le> max_batch_size r \<Longrightarrow>
     for_each [0..<n] (Gold_AddAction env r) (0, replicate (batch_size r) 0) =
       Inr (length (live_slots r n),
            map (\<lambda>p. GetNextGoldAction env (snd p)) (live_slots r n)
              @ replicate (batch_size r - length (live_slots r n)) 0)"
proof (induction n)
  case 0
  then show ?case by simp
next
  case (Suc n)
  let ?A = "map (\<lambda>p. GetNextGoldAction env (snd p)) (live_slots r n)"
  have pre: "for_each [0..<n] (Gold_AddAction env r) (0, replicate (batch_size r) 0) =
       Inr (length (live_slots r n), ?A @ replicate (batch_size r - length (live_slots r n)) 0)"
    using Suc by simp
  show ?case
  proof (cases "state r n")
    case None
    then show ?thesis using pre by (simp add: for_each_append live_slots_Suc)
  next
    case (Some st)
    have k: "length (live_slots r n) < batch_size r"
      using live_slots_below_batch_size[OF inv _ Some] Suc.prems by simp
    have lenA: "length ?A = length (live_slots r n)" by simp
    show ?thesis
      using pre Some k update_padded[OF lenA k, of 0 "GetNextGoldAction env st"]
      by (simp add: for_each_append live_slots_Suc)
  qed
qed

lemma Gold_AddAdditionalOutputs_eq:
  assumes "reader_inv r"
  shows "Gold_AddAdditionalOutputs env r = Inr (map (\<lambda>p. GetNextGoldAction env (snd p)) (occupied r), r)"
  using Gold_Add_prefix[OF assms le_refl, of env] batch_size_occupied[OF assms]
  by (simp add: Gold_AddAdditionalOutputs_def occupied_def)

lemma Tally_prefix:
  "foldl (TallyToken env st) r [0..<n] =
     r\<lparr>num_tokens := num_tokens r + int (length (filter
            (\<lambda>i. ScoreToken env (word (GetToken env st i)) (tag (GetToken env st i)) (scoring_type r)) [0..<n])),
       num_correct := num_correct r + int (length (filter (IsTokenCorrect env st) (filter
            (\<lambda>i. ScoreToken env (word (GetToken env st i)) (tag (GetToken env st i)) (scoring_type r)) [0..<n])))\<rparr>"
proof (induction n)
  case 0
  show ?case by simp
next
  case (Suc n)
  show ?case
    unfolding upt_Suc_append[OF le0] foldl_append Suc.IH
    by (simp add: TallyToken_def Let_def)
qed

lemma ComputeTokenAccuracy_eq:
  "ComputeTokenAccuracy env st r =
     r\<lparr>num_tokens := num_tokens r + int (length (scored_tokens env (scoring_type r) st)),
       num_correct := num_correct r + int (length (correct_tokens env (scoring_type r) st))\<rparr>"
  by (simp add: ComputeTokenAccuracy_def Tally_prefix scored_tokens_def correct_tokens_def)

lemma finalized_Suc:
  "finalized env m r (Suc n) = finalized env m r n @
     (case decoded_next env m r n of None \<Rightarrow> []
      | Some st' \<Rightarrow> if IsFinalState env st' then [st'] else [])"
  by (simp add: finalized_def)

lemma decoded_after_0: "decoded_after env m r 0 = r\<lparr>num_tokens := 0, num_correct := 0\<rparr>"
  by (simp add: decoded_after_def finalized_def)

lemma index_prefix_update:
  "n < length xs \<Longrightarrow> (map f [0..<n] @ drop n xs)[n := f n] = map f [0..<Suc n] @ drop (Suc n) xs"
  by (rule nth_equalityI) (auto simp: nth_append nth_list_update less_Suc_eq)

lemma index_prefix_keep:
  assumes "n < length xs" "f n = xs ! n"
  shows "map f [0..<n] @ drop n xs = map f [0..<Suc n] @ drop (Suc n) xs"
proof -
  have "drop n xs = xs ! n # drop (Suc n) xs"
    using assms(1) by (simp add: Cons_nth_drop_Suc)
  then show ?thesis using assms(2) by simp
qed

lemma Decoded_step:
  assumes n: "n < length (states r)"
  shows "Decoded_PerformAction env m n (length (live_slots r n), decoded_after env m r n) =
           (case state r n of
              None \<Rightarrow> Inr (length (live_slots r (Suc n)), decoded_after env m r (Suc n))
            | Some st \<Rightarrow>
                if 0 < dimension1 m \<and> dimension0 m \<le> length (live_slots r n) then Inl OutOfBounds
                else Inr (length (live_slots r (Suc n)), decoded_after env m r (Suc n)))"
proof -
  let ?rn = "decoded_after env m r n"
  let ?xs = "map (decoded_next env m r) [0..<n] @ drop n (states r)"
  have st: "state ?rn n = state r n"
    using n by (simp add: decoded_after_def state_def nth_append)
  have sx: "states ?rn = ?xs" by (simp add: decoded_after_def)
  show ?thesis
  proof (cases "state r n")
    case None
    then have dn: "decoded_next env m r n = None" by (simp add: decoded_next_def)
    have "decoded_next env m r n = states r ! n" using None n dn by (simp add: state_def)
    from index_prefix_keep[of n "states r" "decoded_next env m r"] n this
    have "decoded_after env m r (Suc n) = ?rn"
      unfolding decoded_after_def finalized_Suc dn by simp
    then show ?thesis using None st by (simp add: live_slots_Suc)
  next
    case (Some s)
    let ?st' = "PerformAction env (fst (BestAction env m (length (live_slots r n)) s)) s"
    have dn: "decoded_next env m r n = Some ?st'"
      using Some by (simp add: decoded_next_def compact_index_def)
    have upd: "?xs[n := Some ?st'] = map (decoded_next env m r) [0..<Suc n] @ drop (Suc n) (states r)"
      using index_prefix_update[OF n, of "decoded_next env m r"] dn by simp
    have "(if IsFinalState env ?st'
           then let r' = ComputeTokenAccuracy env ?st' (?rn\<lparr>states := (states ?rn)[n := Some ?st']\<rparr>)
                in r'\<lparr>documents := documents r' @ [AddParseToDocument env ?st' (sentence env ?st')]\<rparr>
           else ?rn\<lparr>states := (states ?rn)[n := Some ?st']\<rparr>) = decoded_after env m r (Suc n)"
      unfolding sx upd
      by (simp add: decoded_after_def finalized_Suc dn ComputeTokenAccuracy_eq Let_def)
    then show ?thesis
      using Some st by (simp add: live_slots_Suc Let_def)
  qed
qed

lemma for_each_single:
  "(case x of Inl e \<Rightarrow> Inl e | Inr s \<Rightarrow> for_each [] body s) = x"
  by (cases x) simp_all

lemma Decoded_prefix:
  "n \<le> length (states r) \<Longrightarrow>
   for_each [0..<n] (Decoded_PerformAction env m) (0, r\<lparr>num_tokens := 0, num_correct := 0\<rparr>) =
     (if 0 < dimension1 m \<and> dimension0 m < length (live_slots r n) then Inl OutOfBounds
      else Inr (length (live_slots r n), decoded_after env m r n))"
proof (induction n)
  case 0
  show ?case by (simp add: decoded_after_0)
next
  case (Suc n)
  let ?loop = "\<lambda>n. for_each [0..<n] (Decoded_PerformAction env m) (0, r\<lparr>num_tokens := 0, num_correct := 0\<rparr>)"
  have n: "n < length (states r)" using Suc.prems by simp
  have ih: "?loop n = (if 0 < dimension1 m \<and> dimension0 m < length (live_slots r n) then Inl OutOfBounds
      else Inr (length (live_slots r n), decoded_after env m r n))"
    using Suc by simp
  have mono: "length (live_slots r n) \<le> length (live_slots r (Suc n))"
    by (simp add: live_slots_Suc)
  show ?case
  proof (cases "0 < dimension1 m \<and> dimension0 m < length (live_slots r n)")
    case True
    then have "?loop (Suc n) = Inl OutOfBounds" using ih by (simp add: for_each_append)
    moreover have "0 < dimension1 m \<and> dimension0 m < length (live_slots r (Suc n))"
      using True mono by linarith
    ultimately show ?thesis by (simp only: if_P)
  next
    case False
    then have pre: "?loop n = Inr (length (live_slots r n), decoded_after env m r n)"
      using ih by simp
    have "?loop (Suc n) = Decoded_PerformAction env m n (length (live_slots r n), decoded_after env m r n)"
      using pre by (simp add: for_each_append for_each_single del: Decoded_PerformAction.simps)
    also have "\<dots> = (if 0 < dimension1 m \<and> dimension0 m < length (live_slots r (Suc n)) then Inl OutOfBounds
      else Inr (length (live_slots r (Suc n)), decoded_after env m r (Suc n)))"
      unfolding Decoded_step[OF n] using False
      by (auto simp: live_slots_Suc split: option.splits)
    finally show ?thesis .
  qed
qed

lemma Decoded_PerformActions_eq:
  assumes "reader_inv r"
  shows "Decoded_PerformActions env m r =
     (if 0 < dimension1 m \<and> dimension0 m < length (occupied r) then Inl OutOfBounds
      else Inr (decoded_after env m r (max_batch_size r)))"
  using Decoded_prefix[of "max_batch_size r" r env m] reader_inv_lengths[OF assms]
  by (simp add: Decoded_PerformActions_def occupied_def)

lemma reader_inv_Initial: "reader_inv (InitialReader env n sents)"
  by (simp add: reader_inv_def InitialReader_def)

lemma reader_inv_InitialDecoded: "reader_inv (InitialDecodedReader env n sents scoring)"
  by (simp add: reader_inv_def InitialDecodedReader_def InitialReader_def
      ParsingReader.defs DecodedParseReader.defs)

lemma live_slots_cong:
  assumes "states r' = states r" "workspaces r' = workspaces r"
  shows "live_slots r' n = live_slots r n"
proof -
  have "\<And>i. state r' i = state r i" unfolding state_def assms(1) by simp
  then show ?thesis unfolding live_slots_def assms(2) by simp
qed

lemma live_slots_nth:
  "i < n \<Longrightarrow> state r i = Some st \<Longrightarrow>
   length (live_slots r i) < length (live_slots r n) \<and>
   live_slots r n ! length (live_slots r i) = (workspaces r ! i, st)"
proof (induction n)
  case 0
  then show ?case by simp
next
  case (Suc n)
  show ?case
  proof (cases "i = n")
    case True
    then show ?thesis using Suc.prems by (simp add: live_slots_Suc)
  next
    case False
    then have "i < n" using Suc.prems by simp
    from Suc.IH[OF this Suc.prems(2)] show ?thesis
      by (auto simp: live_slots_Suc nth_append split: option.splits)
  qed
qed

lemma feature_rows_full:
  "feature_rows env (length ps) ps = map (\<lambda>g. map (FeatureRow env g) ps) [0..<NumEmbeddings env]"
  by (simp add: feature_rows_def)

lemma PopulateFeatureOutputs_Inr:
  assumes "reader_inv r" "PopulateFeatureOutputs env r = Inr (k, outs)"
  shows "outs = map (\<lambda>g. map (FeatureRow env g) (occupied r)) [0..<NumEmbeddings env]"
    and "\<forall>p\<in>set (occupied r). features_ok env p"
  using Populate_prefix[OF assms(1) le_refl assms(2)[unfolded PopulateFeatureOutputs_def]]
    batch_size_occupied[OF assms(1)]
  by (simp_all add: occupied_def feature_rows_full)

lemma PopulateFeatureOutputs_total:
  assumes "reader_inv r"
    "\<forall>p\<in>set (occupied r). length (ExtractSparseFeatures env (fst p) (snd p)) \<le> NumEmbeddings env"
  shows "PopulateFeatureOutputs env r =
           (if \<forall>p\<in>set (occupied r). features_ok env p
            then Inr (length (occupied r), map (\<lambda>g. map (FeatureRow env g) (occupied r)) [0..<NumEmbeddings env])
            else Inl CheckFailure)"
  using Populate_total[OF assms(1) le_refl assms(2)[unfolded occupied_def]]
    batch_size_occupied[OF assms(1)]
  by (simp add: occupied_def feature_rows_full PopulateFeatureOutputs_def)

lemma AdvanceFinalStates_inv:
  assumes "reader_inv r"
  shows "reader_inv (AdvanceFinalStates env r)"
    "max_batch_size (AdvanceFinalStates env r) = max_batch_size r"
    "num_epochs (AdvanceFinalStates env r) = num_epochs r"
    "corpus (sentence_batch (AdvanceFinalStates env r)) = corpus (sentence_batch r)"
    "ParsingReader.more (AdvanceFinalStates env r) = ParsingReader.more r"
    "\<forall>j<max_batch_size r. settled env (state (AdvanceFinalStates env r) j)"
    "\<forall>j<max_batch_size r. settled env (state r j) \<longrightarrow> state (AdvanceFinalStates env r) j = state r j"
  using AdvancePass_prefix[OF assms le_refl, of env]
  by (simp_all add: AdvanceFinalStates_def)

lemma RewindIfEmpty_inv:
  assumes "reader_inv r"
  shows "reader_inv (RewindIfEmpty env r)"
    "max_batch_size (RewindIfEmpty env r) = max_batch_size r"
    "corpus (sentence_batch (RewindIfEmpty env r)) = corpus (sentence_batch r)"
    "ParsingReader.more (RewindIfEmpty env r) = ParsingReader.more r"
proof -
  show "reader_inv (RewindIfEmpty env r)"
    "max_batch_size (RewindIfEmpty env r) = max_batch_size r"
    "corpus (sentence_batch (RewindIfEmpty env r)) = corpus (sentence_batch r)"
    "ParsingReader.more (RewindIfEmpty env r) = ParsingReader.more r"
    using RewindIfEmpty_rewind[OF assms, of env] RewindIfEmpty_keep[OF assms, of env] assms
    by (cases "\<forall>j<max_batch_size r. state r j = None"; simp)+
qed

lemma decoded_next_None: "(decoded_next env m r i = None) = (state r i = None)"
  by (simp add: decoded_next_def split: option.splits)

lemma states_decoded_after:
  assumes "length (states r) = max_batch_size r"
  shows "states (decoded_after env m r (max_batch_size r)) = map (decoded_next env m r) [0..<max_batch_size r]"
  using assms by (simp add: decoded_after_def)

lemma reader_inv_decoded_after:
  assumes "reader_inv r"
  shows "reader_inv (decoded_after env m r (max_batch_size r))"
proof -
  have len: "length (states r) = max_batch_size r" using assms by (simp add: reader_inv_lengths)
  have "map (\<lambda>s. s = None) (map (decoded_next env m r) [0..<max_batch_size r])
          = map (\<lambda>s. s = None) (states r)"
    using len by (intro nth_equalityI) (simp_all add: decoded_next_None state_def)
  then show ?thesis
    using assms len by (simp add: reader_inv_def decoded_after_def)
qed

lemma ActionPass_Inr:
  assumes "reader_inv r" "ActionPass env p r = Inr r1"
  shows "reader_inv r1" "max_batch_size r1 = max_batch_size r" "num_epochs r1 = num_epochs r"
    "sentence_batch r1 = sentence_batch r" "workspaces r1 = workspaces r"
proof -
  have "reader_inv r1 \<and> max_batch_size r1 = max_batch_size r \<and> num_epochs r1 = num_epochs r \<and>
        sentence_batch r1 = sentence_batch r \<and> workspaces r1 = workspaces r"
  proof (cases p)
    case GoldPolicy
    then have "r1 = r\<lparr>states := map (gold_next env) (states r)\<rparr>"
      using assms by (simp add: ActionPass_def Gold_PerformActions_eq)
    then show ?thesis using reader_inv_states_map[OF assms(1), of "gold_next env"] by simp
  next
    case (DecodedPolicy m)
    then have "r1 = decoded_after env m r (max_batch_size r)"
      using assms by (simp add: ActionPass_def Decoded_PerformActions_eq split: if_splits)
    then show ?thesis using reader_inv_decoded_after[OF assms(1), of env m]
      by (simp add: decoded_after_def)
  qed
  then show "reader_inv r1" "max_batch_size r1 = max_batch_size r" "num_epochs r1 = num_epochs r"
    "sentence_batch r1 = sentence_batch r" "workspaces r1 = workspaces r"
    by simp_all
qed


lemma after_actions_inv:
  assumes "reader_inv r" "ActionPass env p r = Inr r1"
  shows "reader_inv (RewindIfEmpty env (AdvanceFinalStates env r1))"
    "max_batch_size (RewindIfEmpty env (AdvanceFinalStates env r1)) = max_batch_size r"
  using ActionPass_Inr[OF assms] AdvanceFinalStates_inv(1,2)[of r1 env]
    RewindIfEmpty_inv(1,2)[of "AdvanceFinalStates env r1" env]
  by simp_all

lemma Step_eq:
  assumes "reader_inv r"
  shows "Step env p r =
     (case ActionPass env p r of
        Inl e \<Rightarrow> Inl e
      | Inr r1 \<Rightarrow>
          (case PopulateFeatureOutputs env (RewindIfEmpty env (AdvanceFinalStates env r1)) of
             Inl e \<Rightarrow> Inl e
           | Inr (k, outs) \<Rightarrow>
               Inr (case p of
                      GoldPolicy \<Rightarrow> RewindIfEmpty env (AdvanceFinalStates env r1)
                    | DecodedPolicy m \<Rightarrow> (RewindIfEmpty env (AdvanceFinalStates env r1))\<lparr>documents := []\<rparr>,
                    outs, num_epochs (RewindIfEmpty env (AdvanceFinalStates env r1)))))"
proof (cases "ActionPass env p r")
  case (Inl e)
  then show ?thesis
    by (cases p) (simp_all add: Step_def ActionPass_def GoldCompute_def DecodedCompute_def Compute_def)
next
  case (Inr r1)
  let ?r3 = "RewindIfEmpty env (AdvanceFinalStates env r1)"
  have inv3: "reader_inv ?r3" using after_actions_inv[OF assms Inr] by simp
  show ?thesis
  proof (cases p)
    case GoldPolicy
    then have "Gold_PerformActions env r = Inr r1" using Inr by (simp add: ActionPass_def)
    then show ?thesis
      using Inr GoldPolicy Gold_AddAdditionalOutputs_eq[OF inv3, of env]
      by (simp add: Step_def GoldCompute_def Compute_def Let_def split: sum.splits prod.splits)
  next
    case (DecodedPolicy m)
    then have "Decoded_PerformActions env m r = Inr r1" using Inr by (simp add: ActionPass_def)
    then show ?thesis
      using Inr DecodedPolicy
      by (simp add: Step_def DecodedCompute_def Compute_def Let_def Decoded_AddAdditionalOutputs_def
          split: sum.splits prod.splits)
  qed
qed

lemma Step_Inr:
  assumes "reader_inv r" "Step env p r = Inr (r', feats, epoch)"
  obtains r1 k where "ActionPass env p r = Inr r1"
    "PopulateFeatureOutputs env (RewindIfEmpty env (AdvanceFinalStates env r1)) = Inr (k, feats)"
    "epoch = num_epochs (RewindIfEmpty env (AdvanceFinalStates env r1))"
    "r' = (case p of
             GoldPolicy \<Rightarrow> RewindIfEmpty env (AdvanceFinalStates env r1)
           | DecodedPolicy m \<Rightarrow> (RewindIfEmpty env (AdvanceFinalStates env r1))\<lparr>documents := []\<rparr>)"
  using assms(2) unfolding Step_eq[OF assms(1)]
  by (auto split: sum.splits prod.splits)

lemma finish_fields:
  fixes r3 :: "('st, 'sent, 'ws, 'm) DecodedParseReader_scheme"
  assumes "r' = (case p of GoldPolicy \<Rightarrow> r3 | DecodedPolicy m \<Rightarrow> r3\<lparr>documents := []\<rparr>)"
  shows "states r' = states r3" "workspaces r' = workspaces r3" "sentence_batch r' = sentence_batch r3"
    "num_epochs r' = num_epochs r3" "max_batch_size r' = max_batch_size r3"
    "reader_inv r' = reader_inv r3" "occupied r' = occupied r3" "state r' = state r3"
    "compact_index r' = compact_index r3"
proof -
  show f: "states r' = states r3" "workspaces r' = workspaces r3" "sentence_batch r' = sentence_batch r3"
    "num_epochs r' = num_epochs r3" "max_batch_size r' = max_batch_size r3"
    using assms by (cases p; simp)+
  show "reader_inv r' = reader_inv r3" by (simp add: reader_inv_def f)
  show "occupied r' = occupied r3" by (simp add: occupied_def f live_slots_cong[OF f(1,2)])
  show "state r' = state r3" by (intro ext) (simp add: state_def f)
  show "compact_index r' = compact_index r3"
    by (intro ext) (simp add: compact_index_def live_slots_cong[OF f(1,2)])
qed

section \<open>Properties of a step\<close>

lemma GoldCompute_Inr:
  assumes "reader_inv r" "GoldCompute env r = Inr (r', out)"
  shows "r' = RewindIfEmpty env (AdvanceFinalStates env (r\<lparr>states := map (gold_next env) (states r)\<rparr>))"
    and "reader_inv r'"
    and "additional_outputs out = map (\<lambda>p. GetNextGoldAction env (snd p)) (occupied r')"
    and "epoch_output out = num_epochs r'"
    and "feature_outputs out = map (\<lambda>g. map (FeatureRow env g) (occupied r')) [0..<NumEmbeddings env]"
proof -
  let ?r1 = "r\<lparr>states := map (gold_next env) (states r)\<rparr>"
  let ?r3 = "RewindIfEmpty env (AdvanceFinalStates env ?r1)"
  have inv1: "reader_inv ?r1" using reader_inv_states_map[OF assms(1), of "gold_next env"] by simp
  have inv3: "reader_inv ?r3"
    using AdvanceFinalStates_inv(1)[OF inv1, of env] RewindIfEmpty_inv(1) by blast
  from assms(2) obtain k outs where pop: "PopulateFeatureOutputs env ?r3 = Inr (k, outs)"
    and res: "r' = ?r3" "out = \<lparr>feature_outputs = outs, epoch_output = num_epochs ?r3,
        additional_outputs = map (\<lambda>p. GetNextGoldAction env (snd p)) (occupied ?r3)\<rparr>"
    unfolding GoldCompute_def Compute_def Gold_PerformActions_eq[OF assms(1)]
    by (auto simp: Let_def Gold_AddAdditionalOutputs_eq[OF inv3] split: sum.splits prod.splits)
  show "r' = ?r3" by fact
  show "reader_inv r'" using inv3 res by simp
  show "additional_outputs out = map (\<lambda>p. GetNextGoldAction env (snd p)) (occupied r')"
    using res by simp
  show "epoch_output out = num_epochs r'" using res by simp
  show "feature_outputs out = map (\<lambda>g. map (FeatureRow env g) (occupied r')) [0..<NumEmbeddings env]"
    using PopulateFeatureOutputs_Inr(1)[OF inv3 pop] res by simp
qed

lemma state_decoded_after:
  assumes "reader_inv r" "i < max_batch_size r"
  shows "state (decoded_after env m r (max_batch_size r)) i = decoded_next env m r i"
  using assms reader_inv_lengths(1)[OF assms(1)]
  by (simp add: state_def decoded_after_def)

lemma Decoded_PerformActions_state:
  assumes "reader_inv r" "i < max_batch_size r" "state r i = Some st"
    "Decoded_PerformActions env m r = Inr r'"
  shows "state r' i = Some (PerformAction env (fst (BestAction env m (compact_index r i) st)) st)"
proof -
  have "r' = decoded_after env m r (max_batch_size r)"
    using assms(4) unfolding Decoded_PerformActions_eq[OF assms(1)] by (simp split: if_splits)
  then show ?thesis
    using state_decoded_after[OF assms(1,2), of env m] assms(3) by (simp add: decoded_next_def)
qed

lemma BestAction_candidate:
  assumes "c < dimension1 m" "IsAllowedAction env (int c) st" "float_gt (coeff m row c) NegInf"
  shows "\<exists>best<dimension1 m.
           BestAction env m row st = (int best, coeff m row best) \<and>
           IsAllowedAction env (int best) st \<and>
           (\<forall>a<dimension1 m. IsAllowedAction env (int a) st \<longrightarrow>
                \<not> float_gt (coeff m row a) (coeff m row best)) \<and>
           (\<forall>a<best. IsAllowedAction env (int a) st \<longrightarrow>
                coeff m row a = NaN \<or> float_gt (coeff m row best) (coeff m row a))"
proof -
  have "\<exists>c<dimension1 m. candidate env m row st c"
    using assms by (auto simp: candidate_def)
  from scan_some[OF this] show ?thesis
    unfolding BestAction_def candidate_def by blast
qed

lemma more_fields:
  fixes r :: "('st, 'sent, 'ws, 'm) DecodedParseReader_scheme"
    and r' :: "('st, 'sent, 'ws, 'm) DecodedParseReader_scheme"
  assumes "ParsingReader.more r' = ParsingReader.more r"
  shows "num_tokens r' = num_tokens r" "num_correct r' = num_correct r"
    "scoring_type r' = scoring_type r" "documents r' = documents r"
  using assms
  by (cases r; cases r'; simp)+

lemma DecodedCompute_Inr:
  assumes "reader_inv r" "DecodedCompute env m r = Inr (r', out)"
  shows "r' = (RewindIfEmpty env (AdvanceFinalStates env (decoded_after env m r (max_batch_size r))))
              \<lparr>documents := []\<rparr>"
    and "additional_outputs out =
           ((num_tokens (decoded_after env m r (max_batch_size r)),
             num_correct (decoded_after env m r (max_batch_size r))),
            map (SerializeSentence env) (documents (decoded_after env m r (max_batch_size r))))"
proof -
  let ?r1 = "decoded_after env m r (max_batch_size r)"
  let ?r3 = "RewindIfEmpty env (AdvanceFinalStates env ?r1)"
  have r1: "Decoded_PerformActions env m r = Inr ?r1"
    using assms(2) unfolding DecodedCompute_def Compute_def Decoded_PerformActions_eq[OF assms(1)]
    by (simp split: if_splits)
  have inv1: "reader_inv ?r1" by (rule reader_inv_decoded_after[OF assms(1)])
  have more: "ParsingReader.more ?r3 = ParsingReader.more ?r1"
    using AdvanceFinalStates_inv(1,5)[OF inv1, of env] RewindIfEmpty_inv(4) by metis
  from assms(2) have res: "r' = ?r3\<lparr>documents := []\<rparr>"
    "additional_outputs out = ((num_tokens ?r3, num_correct ?r3), map (SerializeSentence env) (documents ?r3))"
    unfolding DecodedCompute_def Compute_def r1
    by (auto simp: Let_def Decoded_AddAdditionalOutputs_def split: sum.splits prod.splits)
  show "r' = ?r3\<lparr>documents := []\<rparr>" by fact
  show "additional_outputs out =
           ((num_tokens ?r1, num_correct ?r1), map (SerializeSentence env) (documents ?r1))"
    using res(2) more_fields[OF more] by simp
qed

lemma decoded_after_fields:
  "num_tokens (decoded_after env m r n) =
     sum_list (map (\<lambda>st. int (length (scored_tokens env (scoring_type r) st))) (finalized env m r n))"
  "num_correct (decoded_after env m r n) =
     sum_list (map (\<lambda>st. int (length (correct_tokens env (scoring_type r) st))) (finalized env m r n))"
  "documents (decoded_after env m r n) =
     documents r @ map (\<lambda>st. AddParseToDocument env st (sentence env st)) (finalized env m r n)"
  by (simp_all add: decoded_after_def)

lemma DecodedCompute_counters:
  "DecodedCompute env m (r\<lparr>num_tokens := a, num_correct := b\<rparr>) = DecodedCompute env m r"
proof -
  have "Decoded_PerformActions env m (r\<lparr>num_tokens := a, num_correct := b\<rparr>)
          = Decoded_PerformActions env m r"
    by (simp add: Decoded_PerformActions_def)
  then show ?thesis by (simp add: DecodedCompute_def Compute_def)
qed

lemma Step_reader_inv:
  assumes "reader_inv r" "Step env p r = Inr (r', feats, epoch)"
  shows "reader_inv r'" "max_batch_size r' = max_batch_size r"
proof -
  from Step_Inr[OF assms] obtain r1 k where s: "ActionPass env p r = Inr r1"
    "r' = (case p of
             GoldPolicy \<Rightarrow> RewindIfEmpty env (AdvanceFinalStates env r1)
           | DecodedPolicy m \<Rightarrow> (RewindIfEmpty env (AdvanceFinalStates env r1))\<lparr>documents := []\<rparr>)"
    by blast
  show "reader_inv r'" "max_batch_size r' = max_batch_size r"
    using after_actions_inv[OF assms(1) s(1)] finish_fields(5,6)[OF s(2)] by simp_all
qed

lemma Step_features:
  assumes "reader_inv r" "Step env p r = Inr (r', feats, epoch)"
  shows "feats = map (\<lambda>g. map (FeatureRow env g) (occupied r')) [0..<NumEmbeddings env]"
proof -
  from Step_Inr[OF assms] obtain r1 k where s: "ActionPass env p r = Inr r1"
    "PopulateFeatureOutputs env (RewindIfEmpty env (AdvanceFinalStates env r1)) = Inr (k, feats)"
    "r' = (case p of
             GoldPolicy \<Rightarrow> RewindIfEmpty env (AdvanceFinalStates env r1)
           | DecodedPolicy m \<Rightarrow> (RewindIfEmpty env (AdvanceFinalStates env r1))\<lparr>documents := []\<rparr>)"
    by blast
  show ?thesis
    using PopulateFeatureOutputs_Inr(1)[OF after_actions_inv(1)[OF assms(1) s(1)] s(2)]
      finish_fields(7)[OF s(3)] by simp
qed

lemma compact_index_mono:
  assumes "i < j" "state r i = Some st"
  shows "compact_index r i < compact_index r j"
proof -
  have "length (live_slots r (Suc i)) \<le> length (live_slots r j)"
    using assms(1) by (intro live_slots_mono) simp
  then show ?thesis using assms(2) by (simp add: compact_index_def live_slots_Suc)
qed

lemma occupied_nth:
  assumes "i < max_batch_size r" "state r i = Some st"
  shows "compact_index r i < length (occupied r)"
    "occupied r ! compact_index r i = (workspaces r ! i, st)"
  using live_slots_nth[OF assms] by (simp_all add: occupied_def compact_index_def)

lemma length_occupied:
  assumes "reader_inv r"
  shows "length (occupied r) = length (filter (\<lambda>s. s \<noteq> None) (states r))"
  using length_live_slots[of "max_batch_size r" r] reader_inv_lengths(1)[OF assms]
  by (simp add: occupied_def)

lemma AdvancePass_later:
  assumes inv: "reader_inv r" and i: "i < n"
  shows "n \<le> max_batch_size r \<Longrightarrow>
         state (foldl (AdvanceWhileFinal env) r [0..<n]) i
           = state (foldl (AdvanceWhileFinal env) r [0..<Suc i]) i"
  using i
proof (induction n)
  case 0
  then show ?case by simp
next
  case (Suc n)
  show ?case
  proof (cases "i = n")
    case True
    then show ?thesis by simp
  next
    case False
    then have lt: "i < n" using Suc.prems by simp
    let ?rn = "foldl (AdvanceWhileFinal env) r [0..<n]"
    have le: "n \<le> max_batch_size r" using Suc.prems by simp
    note P = AdvancePass_prefix[OF inv le, of env]
    have invn: "reader_inv ?rn" and mb: "n < max_batch_size ?rn"
      using P Suc.prems by simp_all
    have "states (AdvanceWhileFinal env ?rn n) ! i = states ?rn ! i"
      using AdvanceWhileFinal_slot(3)[OF invn mb, of i env] False by simp
    moreover have "length (states (AdvanceWhileFinal env ?rn n)) = length (states ?rn)"
      using AdvanceWhileFinal_slot(4)[OF invn mb, of env] .
    ultimately have "state (AdvanceWhileFinal env ?rn n) i = state ?rn i"
      by (simp add: state_def)
    then show ?thesis using Suc.IH[OF le lt] by simp
  qed
qed

text \<open>
  The invariant holds in every reader of a run, and the pending documents of such a
  reader are empty between two steps.
\<close>

lemma reachable_inv:
  assumes "reachable env r"
  shows "reader_inv r"
  using assms
proof induction
  case (constructed n sents scoring)
  show ?case by (rule reader_inv_InitialDecoded)
next
  case (stepped r p r' feats epoch)
  then show ?case using Step_reader_inv(1) by blast
qed

lemma reachable_documents:
  assumes "reachable env r"
  shows "documents r = []"
  using assms
proof induction
  case (constructed n sents scoring)
  show ?case
    by (simp add: InitialDecodedReader_def InitialReader_def ParsingReader.defs DecodedParseReader.defs)
next
  case (stepped r p r' feats epoch)
  note inv = reachable_inv[OF stepped.hyps(1)]
  from Step_Inr[OF inv stepped.hyps(2)] obtain r1 k where s: "ActionPass env p r = Inr r1"
    "r' = (case p of
             GoldPolicy \<Rightarrow> RewindIfEmpty env (AdvanceFinalStates env r1)
           | DecodedPolicy m \<Rightarrow> (RewindIfEmpty env (AdvanceFinalStates env r1))\<lparr>documents := []\<rparr>)"
    by blast
  show ?case
  proof (cases p)
    case GoldPolicy
    then have r1: "r1 = r\<lparr>states := map (gold_next env) (states r)\<rparr>"
      using s(1) by (simp add: ActionPass_def Gold_PerformActions_eq[OF inv])
    have inv1: "reader_inv r1" using ActionPass_Inr(1)[OF inv s(1)] .
    have "ParsingReader.more (RewindIfEmpty env (AdvanceFinalStates env r1)) = ParsingReader.more r1"
      using AdvanceFinalStates_inv(1,5)[OF inv1, of env] RewindIfEmpty_inv(4) by metis
    from more_fields(4)[OF this] show ?thesis
      using GoldPolicy s(2) r1 stepped.IH by simp
  next
    case (DecodedPolicy m)
    then show ?thesis using s(2) by simp
  qed
qed

text \<open>
  A step produces its outputs when the extractor keeps to the declared shape and,
  for the decoded reader, the score matrix has a row for every occupied slot.
\<close>

lemma Step_succeeds:
  assumes inv: "reader_inv r"
    and rows: "case p of GoldPolicy \<Rightarrow> True
               | DecodedPolicy m \<Rightarrow> dimension1 m = 0 \<or> length (occupied r) \<le> dimension0 m"
    and ok: "\<And>w st. features_ok env (w, st)"
  shows "\<exists>r' feats epoch. Step env p r = Inr (r', feats, epoch)"
proof -
  obtain r1 where r1: "ActionPass env p r = Inr r1"
  proof (cases p)
    case GoldPolicy
    then show ?thesis using that by (simp add: ActionPass_def Gold_PerformActions_def)
  next
    case (DecodedPolicy m)
    then show ?thesis
      using that rows by (auto simp: ActionPass_def Decoded_PerformActions_eq[OF inv])
  qed
  let ?r3 = "RewindIfEmpty env (AdvanceFinalStates env r1)"
  have inv3: "reader_inv ?r3" using after_actions_inv[OF inv r1] by simp
  have all: "\<forall>q\<in>set (occupied ?r3). features_ok env q" using ok by auto
  then have le: "\<forall>q\<in>set (occupied ?r3).
      length (ExtractSparseFeatures env (fst q) (snd q)) \<le> NumEmbeddings env"
    by (auto simp: features_ok_def Let_def)
  have "PopulateFeatureOutputs env ?r3 =
      Inr (length (occupied ?r3), map (\<lambda>g. map (FeatureRow env g) (occupied ?r3)) [0..<NumEmbeddings env])"
    using all by (simp add: PopulateFeatureOutputs_total[OF inv3 le])
  then show ?thesis
    unfolding Step_eq[OF inv] r1 by simp
qed

text \<open>The increment of the epoch counter, read as the signed \<^verbatim>\<open>int\<close>.\<close>

lemma sint_incr:
  fixes x :: "32 word"
  shows "sint (x + 1) = (if sint x = 2147483647 then - 2147483648 else sint x + 1)"
proof -
  have r: "- 2147483648 \<le> sint x" "sint x \<le> 2147483647"
    using sint_ge[of x] sint_lt[of x] by simp_all
  have "sint (x + 1) = signed_take_bit 31 (sint x + 1)"
    by (simp add: sint_word_ariths)
  also have "\<dots> = (if sint x = 2147483647 then - 2147483648 else sint x + 1)"
    using r by (auto simp: signed_take_bit_int_eq_self_iff signed_take_bit_eq_take_bit_shift take_bit_eq_mod)
  finally show ?thesis .
qed

text \<open>
  The loop that fills the feature outputs ends at its first fault, which is the failed
  \<^verbatim>\<open>CHECK\<close> or an access out of range, and never an error status.
\<close>

lemma for_each_Inl:
  assumes "\<And>i s e. body i s = Inl e \<Longrightarrow> P e"
  shows "for_each xs body s = Inl e \<Longrightarrow> P e"
  using assms by (induction xs arbitrary: s) (auto split: sum.splits)

lemma PopulateFeatureOutputs_no_status:
  "PopulateFeatureOutputs env r \<noteq> Inl StatusError"
proof
  assume a: "PopulateFeatureOutputs env r = Inl StatusError"
  have grp: "\<And>f k g outs e. PopulateGroup env f k g outs = Inl e \<Longrightarrow> e \<noteq> StatusError"
    by (auto simp: PopulateGroup_def Let_def split: if_splits)
  have slot: "\<And>f k outs e. PopulateSlot env f k outs = Inl e \<Longrightarrow> e \<noteq> StatusError"
    unfolding PopulateSlot_def by (rule for_each_Inl[where P="\<lambda>e. e \<noteq> StatusError"]) (rule grp)
  have st: "\<And>i s e. PopulateState env r i s = Inl e \<Longrightarrow> e \<noteq> StatusError"
  proof -
    fix i s e assume "PopulateState env r i s = Inl e"
    then show "e \<noteq> StatusError"
      using slot by (cases s) (auto split: option.splits sum.splits)
  qed
  from for_each_Inl[where P="\<lambda>e. e \<noteq> StatusError", OF st a[unfolded PopulateFeatureOutputs_def]]
  show False by simp
qed

lemma for_each_stop:
  assumes "for_each xs body s = Inr s'" "body i s' = Inl e"
  shows "for_each (xs @ i # ys) body s = Inl e"
  using assms by (simp add: for_each_append)

lemma Populate_first_fault:
  assumes inv: "reader_inv r" and i: "i < max_batch_size r" and st: "state r i = Some st"
    and before: "\<forall>q\<in>set (live_slots r i). features_ok env q"
    and g: "g < length (ExtractSparseFeatures env (workspaces r ! i) st)"
    and bad: "length (ExtractSparseFeatures env (workspaces r ! i) st ! g) \<noteq> FeatureSize env g"
    and first: "\<forall>g'<g. g' < NumEmbeddings env \<and>
                  length (ExtractSparseFeatures env (workspaces r ! i) st ! g') = FeatureSize env g'"
  shows "PopulateFeatureOutputs env r = Inl CheckFailure"
proof -
  let ?f = "ExtractSparseFeatures env (workspaces r ! i) st"
  let ?k = "length (live_slots r i)"
  let ?o = "feature_rows env (batch_size r) (live_slots r i)"
  have le: "\<forall>p\<in>set (live_slots r i).
      length (ExtractSparseFeatures env (fst p) (snd p)) \<le> NumEmbeddings env"
    using before by (auto simp: features_ok_def Let_def)
  have pre: "for_each [0..<i] (PopulateState env r) (0, AllocateFeatureOutputs env r) = Inr (?k, ?o)"
    using Populate_total[OF inv _ le] i before by simp
  have k: "?k < batch_size r" using live_slots_below_batch_size[OF inv i st] .
  have sh: "shaped env (batch_size r) ?o"
    using before k by (intro shaped_feature_rows) auto
  have gN: "g \<le> NumEmbeddings env"
  proof (cases g)
    case 0
    then show ?thesis by simp
  next
    case (Suc g')
    then have "g' < NumEmbeddings env" using first by simp
    then show ?thesis using Suc by simp
  qed
  have allg: "\<forall>g'<g. length (?f ! g') = FeatureSize env g'" using first by simp
  from PopulateSlot_total[OF sh k gN, of ?f] allg
  obtain o' where pg: "for_each [0..<g] (PopulateGroup env ?f ?k) ?o = Inr o'"
    by simp
  have "PopulateGroup env ?f ?k g o' = Inl CheckFailure"
    using bad by (simp add: PopulateGroup_def)
  moreover have "[0..<length ?f] = [0..<g] @ g # [Suc g..<length ?f]"
    using g upt_add_eq_append[of 0 g "length ?f - g"] by (simp add: upt_conv_Cons del: upt_Suc)
  ultimately have "PopulateSlot env ?f ?k ?o = Inl CheckFailure"
    unfolding PopulateSlot_def using for_each_stop[OF pg, of g CheckFailure "[Suc g..<length ?f]"]
    by simp
  then have "PopulateState env r i (?k, ?o) = Inl CheckFailure"
    using st by simp
  moreover have "[0..<max_batch_size r] = [0..<i] @ i # [Suc i..<max_batch_size r]"
    using i upt_add_eq_append[of 0 i "max_batch_size r - i"] by (simp add: upt_conv_Cons del: upt_Suc)
  ultimately show ?thesis
    unfolding PopulateFeatureOutputs_def
    using for_each_stop[OF pre, of i CheckFailure "[Suc i..<max_batch_size r]"]
    by simp
qed


lemma Populate_fails:
  assumes inv: "reader_inv r" and i: "i < max_batch_size r" and st: "state r i = Some st"
    and g: "g < length (ExtractSparseFeatures env (workspaces r ! i) st)"
    and bad: "length (ExtractSparseFeatures env (workspaces r ! i) st ! g) \<noteq> FeatureSize env g"
  shows "PopulateFeatureOutputs env r = Inl CheckFailure \<or>
         PopulateFeatureOutputs env r = Inl OutOfBounds"
proof (cases "PopulateFeatureOutputs env r")
  case (Inl e)
  then show ?thesis using PopulateFeatureOutputs_no_status[of env r] by (cases e) simp_all
next
  case (Inr ko)
  obtain k outs where ko: "ko = (k, outs)" by (cases ko)
  have ok: "\<forall>p\<in>set (occupied r). features_ok env p"
    using PopulateFeatureOutputs_Inr(2)[OF inv Inr[unfolded ko]] .
  have "(workspaces r ! i, st) \<in> set (occupied r)"
    using occupied_nth[OF i st] nth_mem[of "compact_index r i" "occupied r"] by simp
  then have "features_ok env (workspaces r ! i, st)" using ok by blast
  then have False using g bad by (simp add: features_ok_def Let_def)
  then show ?thesis ..
qed

text \<open>
  The scan of the decoded reader: with a candidate in the row it selects the first
  allowed action of maximal score; without one, action 0 is applied.
\<close>

lemma Decoded_selects_first_maximum:
  assumes "reader_inv r" "i < max_batch_size r" "state r i = Some st"
    and "Decoded_PerformActions env scores r = Inr r'"
    and "c < dimension1 scores" "IsAllowedAction env (int c) st"
    and "float_gt (coeff scores (compact_index r i) c) NegInf"
  shows "\<exists>best<dimension1 scores.
           state r' i = Some (PerformAction env (int best) st) \<and>
           IsAllowedAction env (int best) st \<and>
           (\<forall>a<dimension1 scores. IsAllowedAction env (int a) st \<longrightarrow>
                \<not> float_gt (coeff scores (compact_index r i) a) (coeff scores (compact_index r i) best)) \<and>
           (\<forall>a<best. IsAllowedAction env (int a) st \<longrightarrow>
                coeff scores (compact_index r i) a = NaN \<or>
                float_gt (coeff scores (compact_index r i) best) (coeff scores (compact_index r i) a))"
proof -
  from BestAction_candidate[OF assms(5-7)] obtain best where b: "best < dimension1 scores"
    "BestAction env scores (compact_index r i) st = (int best, coeff scores (compact_index r i) best)"
    "IsAllowedAction env (int best) st"
    "\<forall>a<dimension1 scores. IsAllowedAction env (int a) st \<longrightarrow>
                \<not> float_gt (coeff scores (compact_index r i) a) (coeff scores (compact_index r i) best)"
    "\<forall>a<best. IsAllowedAction env (int a) st \<longrightarrow>
                coeff scores (compact_index r i) a = NaN \<or>
                float_gt (coeff scores (compact_index r i) best) (coeff scores (compact_index r i) a)"
    by blast
  have "state r' i = Some (PerformAction env (int best) st)"
    using Decoded_PerformActions_state[OF assms(1-4)] b(2) by simp
  with b show ?thesis by blast
qed

lemma Decoded_without_candidate:
  assumes "reader_inv r" "i < max_batch_size r" "state r i = Some st"
    and "Decoded_PerformActions env scores r = Inr r'"
    and "\<forall>c<dimension1 scores. \<not> candidate env scores (compact_index r i) st c"
  shows "state r' i = Some (PerformAction env 0 st)"
  using Decoded_PerformActions_state[OF assms(1-4)] scan_none[OF assms(5)]
  by (simp add: BestAction_def)

section \<open>The claims\<close>

subsection \<open>C1\<close>

text \<open>
  C1, as stated: the gold-action output reports, for each occupied slot, the gold
  action that was taken during the step. It fails on the one-slot gold reader that
  holds a fresh state: the step takes action 1 (the shift), and the output reports
  action 0, the gold action of the state after the shift. That reader is the gold
  reader of the single two-token sentence after its first step, whose own output
  reports action 1 for a slot on which no action has been taken yet.
\<close>

theorem gold_output_not_action_taken:
  "GoldCompute toy (InitialReader toy 1 [[tok ''a'', tok ''b'']]) =
     Inr (toy_gold_loaded,
          \<lparr>feature_outputs = [[[''xx'', []]], [[''xx'']]], epoch_output = 1, additional_outputs = [1]\<rparr>) \<and>
   GoldCompute toy toy_gold_loaded =
     Inr (toy_gold_shifted,
          \<lparr>feature_outputs = [[[''x'', ''x'']], [[''xx'']]], epoch_output = 1, additional_outputs = [0]\<rparr>) \<and>
   states toy_gold_shifted = [Some (toy_perform 1 toy_fresh_state)] \<and>
   GetNextGoldAction toy toy_fresh_state = 1"
  by code_simp

text \<open>
  C1, amended: the gold-action output of a step lists, for the slots that are
  occupied at the end of the step (after the action pass, the advance of final
  states and the rewind), in slot order, the next gold action of the state the slot
  then holds. It is the action that the following step will take, not the one that
  this step took.
\<close>

theorem gold_output_is_next_gold_action:
  assumes "reader_inv r" "GoldCompute env r = Inr (r', out)"
  shows "r' = RewindIfEmpty env (AdvanceFinalStates env (r\<lparr>states := map (gold_next env) (states r)\<rparr>)) \<and>
         additional_outputs out = map (\<lambda>p. GetNextGoldAction env (snd p)) (occupied r') \<and>
         Gold_PerformActions env r' = Inr (r'\<lparr>states := map (gold_next env) (states r')\<rparr>)"
  using GoldCompute_Inr(1,3)[OF assms] Gold_PerformActions_eq[OF GoldCompute_Inr(2)[OF assms], of env]
  by simp

theorem gold_output_is_next_gold_action_witness:
  "reader_inv toy_gold_loaded \<and>
   GoldCompute toy toy_gold_loaded =
     Inr (toy_gold_shifted,
          \<lparr>feature_outputs = [[[''x'', ''x'']], [[''xx'']]], epoch_output = 1, additional_outputs = [0]\<rparr>) \<and>
   occupied toy_gold_shifted = [(2, toy_shifted_state)] \<and>
   GetNextGoldAction toy toy_shifted_state = 0"
proof -
  have h1: "reader_inv toy_gold_loaded" by code_simp
  have h2: "GoldCompute toy toy_gold_loaded =
     Inr (toy_gold_shifted,
          \<lparr>feature_outputs = [[[''x'', ''x'']], [[''xx'']]], epoch_output = 1, additional_outputs = [0]\<rparr>)"
    by code_simp
  have h3: "occupied toy_gold_shifted = [(2, toy_shifted_state)]" by code_simp
  have "GetNextGoldAction toy toy_shifted_state = 0"
    using gold_output_is_next_gold_action[OF h1 h2] h3 by simp
  then show ?thesis using h1 h2 h3 by simp
qed

subsection \<open>C2\<close>

text \<open>
  C2: the action that the decoded reader applies to a slot is allowed for the slot's
  state, for every score matrix. The code misses the case where the scan selects
  nothing: \<^verbatim>\<open>best_action\<close> keeps its initial value 0, and action 0 is applied
  whether it is allowed or not. On the one-slot reader that holds a fresh state (empty
  stack, so that action 0 is not allowed and action 1 is) and a score matrix that is
  \<^verbatim>\<open>-INFINITY\<close> everywhere, the reader performs action 0. The reader is the one that
  the first step leaves, from the constructor's state, over the corpus of a single
  two-token sentence.
\<close>

theorem decoded_applies_disallowed_action:
  "DecodedCompute toy neg_inf_scores (InitialDecodedReader toy 1 [[tok ''a'', tok ''b'']] []) =
     Inr (toy_loaded,
          \<lparr>feature_outputs = [[[''xx'', []]], [[''xx'']]], epoch_output = 1,
           additional_outputs = ((0, 0), [])\<rparr>) \<and>
   Decoded_PerformActions toy neg_inf_scores toy_loaded =
     Inr (toy_loaded\<lparr>states := [Some (toy_perform 0 toy_fresh_state)]\<rparr>) \<and>
   fst (BestAction toy neg_inf_scores 0 toy_fresh_state) = 0 \<and>
   IsAllowedAction toy 0 toy_fresh_state = False \<and>
   IsAllowedAction toy 1 toy_fresh_state = True"
  by code_simp

subsection \<open>C3\<close>

text \<open>
  C3, as stated: a feature group of the wrong cardinality makes the step return an
  error to its caller. It fails: the cardinality is tested with \<^verbatim>\<open>CHECK\<close>, so the
  step ends in \<open>CheckFailure\<close>, the abort of the process, and not in \<open>StatusError\<close>.
  Here the extractor returns one feature for the first group, whose size is two.
\<close>

theorem wrong_cardinality_is_check_failure:
  "GoldCompute toy_short_group toy_gold_loaded = Inl CheckFailure \<and>
   DecodedCompute toy_short_group tie_scores toy_shifted = Inl CheckFailure \<and>
   ExtractSparseFeatures toy_short_group 2 toy_shifted_state = [[1], [2]] \<and>
   FeatureSize toy_short_group 0 = 2"
  by code_simp

text \<open>
  C3, amended: if the action pass succeeds and, when the features are extracted, the
  extractor returns for the state of an occupied slot a group whose cardinality differs
  from the feature size of the group, then the step produces no outputs and returns no
  error to its caller: it ends in the failed \<^verbatim>\<open>CHECK\<close>, the abort of the process, or
  in an access to the output tensors out of their range. It ends in the failed
  \<^verbatim>\<open>CHECK\<close> whenever that group is the first fault of the step: the states of the
  occupied slots before this one get at most as many groups as there are outputs, all
  of their declared sizes, and the groups of this state before the offending one are
  among the outputs and of their declared sizes.
\<close>

theorem wrong_cardinality_aborts:
  assumes "reader_inv r" "ActionPass env p r = Inr r1"
    and "i < max_batch_size r"
    and "state (RewindIfEmpty env (AdvanceFinalStates env r1)) i = Some st"
    and "g < length (ExtractSparseFeatures env
                       (workspaces (RewindIfEmpty env (AdvanceFinalStates env r1)) ! i) st)"
    and "length (ExtractSparseFeatures env
                   (workspaces (RewindIfEmpty env (AdvanceFinalStates env r1)) ! i) st ! g)
           \<noteq> FeatureSize env g"
  shows "(Step env p r = Inl CheckFailure \<or> Step env p r = Inl OutOfBounds) \<and>
         ((\<forall>q\<in>set (live_slots (RewindIfEmpty env (AdvanceFinalStates env r1)) i). features_ok env q) \<and>
          (\<forall>g'<g. g' < NumEmbeddings env \<and>
             length (ExtractSparseFeatures env
                       (workspaces (RewindIfEmpty env (AdvanceFinalStates env r1)) ! i) st ! g')
               = FeatureSize env g')
          \<longrightarrow> Step env p r = Inl CheckFailure)"
proof -
  let ?r3 = "RewindIfEmpty env (AdvanceFinalStates env r1)"
  have inv3: "reader_inv ?r3" and b3: "max_batch_size ?r3 = max_batch_size r"
    using after_actions_inv[OF assms(1,2)] by simp_all
  have i3: "i < max_batch_size ?r3" using assms(3) b3 by simp
  have step: "\<And>e. PopulateFeatureOutputs env ?r3 = Inl e \<Longrightarrow> Step env p r = Inl e"
    unfolding Step_eq[OF assms(1)] assms(2) by simp
  have "Step env p r = Inl CheckFailure \<or> Step env p r = Inl OutOfBounds"
    using Populate_fails[OF inv3 i3 assms(4,5,6)] step by blast
  moreover have "Step env p r = Inl CheckFailure"
    if "\<forall>q\<in>set (live_slots ?r3 i). features_ok env q"
      and "\<forall>g'<g. g' < NumEmbeddings env \<and>
             length (ExtractSparseFeatures env (workspaces ?r3 ! i) st ! g') = FeatureSize env g'"
    using Populate_first_fault[OF inv3 i3 assms(4) that(1) assms(5,6) that(2)] step by blast
  ultimately show ?thesis by blast
qed

theorem wrong_cardinality_aborts_witness:
  "reader_inv toy_two_loaded \<and>
   ActionPass toy_uneven GoldPolicy toy_two_loaded
     = Inr (toy_two_loaded\<lparr>states := [Some toy_shifted_state, Some toy_popped_state]\<rparr>) \<and>
   RewindIfEmpty toy_uneven (AdvanceFinalStates toy_uneven
       (toy_two_loaded\<lparr>states := [Some toy_shifted_state, Some toy_popped_state]\<rparr>))
     = toy_two_loaded\<lparr>states := [Some toy_shifted_state, Some toy_popped_state]\<rparr> \<and>
   max_batch_size toy_two_loaded = 2 \<and>
   workspaces toy_two_loaded = [2, 2] \<and>
   ExtractSparseFeatures toy_uneven 2 toy_shifted_state = [[1, 1], [2]] \<and>
   ExtractSparseFeatures toy_uneven 2 toy_popped_state = [[1, 0], []] \<and>
   NumEmbeddings toy_uneven = 2 \<and> FeatureSize toy_uneven 0 = 2 \<and> FeatureSize toy_uneven 1 = 1 \<and>
   Step toy_uneven GoldPolicy toy_two_loaded = Inl CheckFailure"
proof -
  let ?r1 = "toy_two_loaded\<lparr>states := [Some toy_shifted_state, Some toy_popped_state]\<rparr>"
  let ?r3 = "RewindIfEmpty toy_uneven (AdvanceFinalStates toy_uneven ?r1)"
  have h1: "reader_inv toy_two_loaded" by code_simp
  have h2: "ActionPass toy_uneven GoldPolicy toy_two_loaded = Inr ?r1" by code_simp
  have r3: "?r3 = ?r1" by code_simp
  have b: "max_batch_size toy_two_loaded = 2" by code_simp
  have ws: "workspaces toy_two_loaded = [2, 2]" by code_simp
  have e0: "ExtractSparseFeatures toy_uneven 2 toy_shifted_state = [[1, 1], [2]]" by code_simp
  have e1: "ExtractSparseFeatures toy_uneven 2 toy_popped_state = [[1, 0], []]" by code_simp
  have ne: "NumEmbeddings toy_uneven = 2" by code_simp
  have f0: "FeatureSize toy_uneven 0 = 2" by code_simp
  have f1: "FeatureSize toy_uneven 1 = 1" by code_simp
  have w1: "workspaces ?r3 ! 1 = 2" by code_simp
  have h3: "1 < max_batch_size toy_two_loaded" by (simp add: b)
  have h4: "state ?r3 1 = Some toy_popped_state" by code_simp
  have h5: "1 < length (ExtractSparseFeatures toy_uneven (workspaces ?r3 ! 1) toy_popped_state)"
    by (simp only: w1 e1) simp
  have h6: "length (ExtractSparseFeatures toy_uneven (workspaces ?r3 ! 1) toy_popped_state ! 1)
              \<noteq> FeatureSize toy_uneven 1"
    by (simp only: w1 e1 f1) simp
  have ls: "live_slots ?r3 1 = [(2, toy_shifted_state)]" by code_simp
  have ok: "features_ok toy_uneven (2, toy_shifted_state)"
    unfolding features_ok_def Let_def fst_conv snd_conv e0
    by (simp add: ne f0 f1[unfolded One_nat_def] less_Suc_eq)
  have p1: "\<forall>q\<in>set (live_slots ?r3 1). features_ok toy_uneven q"
    by (simp only: ls) (simp add: ok)
  have p2: "\<forall>g'<1. g' < NumEmbeddings toy_uneven \<and>
      length (ExtractSparseFeatures toy_uneven (workspaces ?r3 ! 1) toy_popped_state ! g')
        = FeatureSize toy_uneven g'"
    by (simp only: w1 e1 ne) (simp add: f0)
  have "Step toy_uneven GoldPolicy toy_two_loaded = Inl CheckFailure"
    using wrong_cardinality_aborts[OF h1 h2 h3 h4 h5 h6, THEN conjunct2] p1 p2 by blast
  then show ?thesis using h1 h2 r3 b ws e0 e1 ne f0 f1 by simp
qed

text \<open>
  The access out of range does occur before the \<^verbatim>\<open>CHECK\<close>: here slot 0 gets
  three groups of their declared sizes, for two outputs, and slot 1 a first group that
  is too short.
\<close>

lemma wrong_cardinality_behind_out_of_range:
  "Step toy_extra_group GoldPolicy toy_two_loaded = Inl OutOfBounds \<and>
   ActionPass toy_extra_group GoldPolicy toy_two_loaded
     = Inr (toy_two_loaded\<lparr>states := [Some toy_shifted_state, Some toy_popped_state]\<rparr>) \<and>
   ExtractSparseFeatures toy_extra_group 2 toy_shifted_state = [[1, 1], [2], [2]] \<and>
   ExtractSparseFeatures toy_extra_group 2 toy_popped_state = [[1], [2]] \<and>
   NumEmbeddings toy_extra_group = 2 \<and>
   FeatureSize toy_extra_group 0 = 2 \<and> FeatureSize toy_extra_group 2 = 1"
  by code_simp

subsection \<open>C4\<close>

text \<open>
  C4: among the actions allowed for the slot's state, the decoded reader selects the one
  with the maximum score, the lowest index winning a tie. The code does so on every row
  that gives an allowed action a score above \<^verbatim>\<open>-INFINITY\<close>
  (\<open>Decoded_selects_first_maximum\<close>), and misses the other rows: the scan selects
  nothing, \<^verbatim>\<open>best_action\<close> keeps its initial value 0, and action 0 is applied whether
  it is allowed or not (\<open>Decoded_without_candidate\<close>), against the comment on line 347,
  ``performs the allowed action with the highest score''. On the one-slot reader
  that holds a fresh state (action 1 is the only allowed action) and the row that gives
  action 0 the score 5 and action 1 the score \<^verbatim>\<open>-INFINITY\<close>, the reader applies action 0,
  which is not among the allowed actions, whereas the allowed action of maximum score
  is action 1.
\<close>

theorem decoded_selects_action_not_allowed:
  "Decoded_PerformActions toy blocked_scores toy_loaded =
     Inr (toy_loaded\<lparr>states := [Some (toy_perform 0 toy_fresh_state)]\<rparr>) \<and>
   state toy_loaded 0 = Some toy_fresh_state \<and>
   fst (BestAction toy blocked_scores 0 toy_fresh_state) = 0 \<and>
   IsAllowedAction toy 0 toy_fresh_state = False \<and>
   IsAllowedAction toy 1 toy_fresh_state = True \<and>
   coeff blocked_scores 0 0 = Finite 5 \<and>
   coeff blocked_scores 0 1 = NegInf \<and>
   dimension1 blocked_scores = 2"
  by code_simp

subsection \<open>C5\<close>

text \<open>
  C5, as stated: when all slots are empty after the advance pass, the corpus is
  rewound and all slots are refilled. It fails when the corpus has fewer sentences
  than the batch has slots: with one sentence and two slots, the first step rewinds
  and leaves slot 1 empty.
\<close>

theorem short_corpus_leaves_slot_empty:
  "Step toy GoldPolicy toy_one_sentence = Inr (toy_half_filled, [[[''x'', []]], [[''x'']]], 1) \<and>
   states toy_half_filled = [Some (NewParserState toy [tok ''a'']), None]"
  by code_simp

text \<open>
  C5, amended: in a step of either policy, the epoch counter is incremented exactly
  when all slots are empty after the advance pass (which is also the case in the very
  first step, before any sentence was loaded); the corpus is then rewound and the
  slots are refilled in slot order from the start of the corpus, slot \<open>j\<close> receiving
  sentence \<open>j\<close> and staying empty when the corpus has no such sentence, before the
  outputs are produced. Otherwise the epoch counter, the slots and the sentence batch
  are those left by the advance pass. The epoch output is the counter after the step.
  The counter is incremented as the 32-bit \<^verbatim>\<open>int\<close> that it is: by one below
  2147483647, and from 2147483647 to -2147483648.
\<close>

theorem epoch_increment_and_refill:
  assumes "reader_inv r" "ActionPass env p r = Inr r1" "Step env p r = Inr (r', feats, epoch)"
  shows "epoch = num_epochs r' \<and>
         feats = map (\<lambda>g. map (FeatureRow env g) (occupied r')) [0..<NumEmbeddings env] \<and>
         (if \<forall>j<max_batch_size r. state (AdvanceFinalStates env r1) j = None
          then num_epochs r' = num_epochs r + 1 \<and>
               sint (num_epochs r') =
                 (if sint (num_epochs r) = 2147483647 then - 2147483648
                  else sint (num_epochs r) + 1) \<and>
               cursor (sentence_batch r') = min (max_batch_size r) (length (corpus (sentence_batch r))) \<and>
               (\<forall>j<max_batch_size r.
                  state r' j = (if j < length (corpus (sentence_batch r))
                                then Some (NewParserState env (corpus (sentence_batch r) ! j))
                                else None))
          else num_epochs r' = num_epochs r \<and>
               states r' = states (AdvanceFinalStates env r1) \<and>
               sentence_batch r' = sentence_batch (AdvanceFinalStates env r1))"
proof -
  let ?r2 = "AdvanceFinalStates env r1"
  let ?r3 = "RewindIfEmpty env ?r2"
  from Step_Inr[OF assms(1,3)] assms(2) have s: "epoch = num_epochs ?r3"
    "r' = (case p of GoldPolicy \<Rightarrow> ?r3 | DecodedPolicy m \<Rightarrow> ?r3\<lparr>documents := []\<rparr>)"
    by auto
  note f = finish_fields[OF s(2)]
  note a = ActionPass_Inr[OF assms(1,2)]
  note inv2 = AdvanceFinalStates_inv[OF a(1), of env]
  have mb: "max_batch_size ?r2 = max_batch_size r" using inv2(2) a(2) by simp
  have corp: "corpus (sentence_batch ?r2) = corpus (sentence_batch r)" using inv2(4) a(4) by simp
  have ne: "num_epochs ?r2 = num_epochs r" using inv2(3) a(3) by simp
  have feats: "feats = map (\<lambda>g. map (FeatureRow env g) (occupied r')) [0..<NumEmbeddings env]"
    by (rule Step_features[OF assms(1,3)])
  show ?thesis
  proof (cases "\<forall>j<max_batch_size r. state ?r2 j = None")
    case True
    then have e: "\<forall>j<max_batch_size ?r2. state ?r2 j = None" using mb by simp
    note rw = RewindIfEmpty_rewind[OF inv2(1) e, of env, unfolded mb corp ne]
    have "num_epochs r' = num_epochs r + 1" using rw(3) by (simp add: f)
    then have "sint (num_epochs r') =
        (if sint (num_epochs r) = 2147483647 then - 2147483648 else sint (num_epochs r) + 1)"
      by (simp only: sint_incr)
    then show ?thesis
      using True s(1) feats rw(3,6,7) by (simp add: f)
  next
    case False
    then have e: "\<not> (\<forall>j<max_batch_size ?r2. state ?r2 j = None)" using mb by simp
    have "?r3 = ?r2" by (rule RewindIfEmpty_keep[OF inv2(1) e])
    then show ?thesis
      using False s(1) feats ne by (simp add: f)
  qed
qed

theorem epoch_increment_and_refill_witness:
  "reader_inv toy_three_sentences \<and>
   ActionPass toy GoldPolicy toy_three_sentences = Inr toy_three_sentences \<and>
   Step toy GoldPolicy toy_three_sentences =
     Inr (toy_three_sentences
            \<lparr>num_epochs := 1,
             sentence_batch := \<lparr>corpus = [[tok ''a''], [tok ''b''], [tok ''c'']], cursor = 2,
                                sentences = [Some [tok ''a''], Some [tok ''b'']]\<rparr>,
             states := [Some (NewParserState toy [tok ''a'']), Some (NewParserState toy [tok ''b''])],
             workspaces := [1, 1]\<rparr>,
          [[[''x'', []], [''x'', []]], [[''x''], [''x'']]], 1) \<and>
   states (AdvanceFinalStates toy toy_three_sentences) = [None, None] \<and>
   num_epochs toy_three_sentences = 0 \<and> max_batch_size toy_three_sentences = 2"
proof -
  let ?r' = "toy_three_sentences
            \<lparr>num_epochs := 1,
             sentence_batch := \<lparr>corpus = [[tok ''a''], [tok ''b''], [tok ''c'']], cursor = 2,
                                sentences = [Some [tok ''a''], Some [tok ''b'']]\<rparr>,
             states := [Some (NewParserState toy [tok ''a'']), Some (NewParserState toy [tok ''b''])],
             workspaces := [1, 1]\<rparr>"
  have h1: "reader_inv toy_three_sentences" by code_simp
  have h2: "ActionPass toy GoldPolicy toy_three_sentences = Inr toy_three_sentences" by code_simp
  have h3: "Step toy GoldPolicy toy_three_sentences =
     Inr (?r', [[[''x'', []], [''x'', []]], [[''x''], [''x'']]], 1)" by code_simp
  have h4: "states (AdvanceFinalStates toy toy_three_sentences) = [None, None]" by code_simp
  have h5: "num_epochs toy_three_sentences = 0 \<and> max_batch_size toy_three_sentences = 2" by code_simp
  have e: "\<forall>j<max_batch_size toy_three_sentences. state (AdvanceFinalStates toy toy_three_sentences) j = None"
    using h4 h5 by (simp add: state_def less_Suc_eq numeral_2_eq_2)
  note t = epoch_increment_and_refill[OF h1 h2 h3, THEN conjunct2, THEN conjunct2, unfolded if_P[OF e]]
  have "num_epochs ?r' = num_epochs toy_three_sentences + 1"
    using t by (rule conjunct1)
  then show ?thesis using h1 h2 h3 h4 h5 by simp
qed

text \<open>
  The first step of a reader whose counter is at the greatest \<^verbatim>\<open>int\<close>: the epoch
  output is the least \<^verbatim>\<open>int\<close>.
\<close>

lemma epoch_counter_wraps:
  "sint (num_epochs toy_at_int_max) = 2147483647 \<and>
   map_sum id (\<lambda>res. sint (snd (snd res))) (Step toy GoldPolicy toy_at_int_max)
     = Inr (- 2147483648)"
  by code_simp

subsection \<open>C6\<close>

text \<open>
  C6: in a step of either policy, every feature-group output has one row for each
  slot that is occupied after the refill, and no other row; the row of a slot is at
  the slot's compacted index, so the rows are in increasing slot order and an empty
  slot contributes none.
\<close>

theorem feature_rows_per_occupied_slot:
  assumes "reader_inv r" "Step env p r = Inr (r', feats, epoch)"
  shows "length feats = NumEmbeddings env \<and>
         (\<forall>g<NumEmbeddings env.
            feats ! g = map (FeatureRow env g) (occupied r') \<and>
            length (feats ! g) = length (filter (\<lambda>s. s \<noteq> None) (states r'))) \<and>
         (\<forall>i<max_batch_size r'. \<forall>st. state r' i = Some st \<longrightarrow>
            compact_index r' i < length (occupied r') \<and>
            occupied r' ! compact_index r' i = (workspaces r' ! i, st)) \<and>
         (\<forall>i j st. i < j \<and> state r' i = Some st \<longrightarrow> compact_index r' i < compact_index r' j)"
proof -
  note feats = Step_features[OF assms]
  note inv' = Step_reader_inv(1)[OF assms]
  have "length feats = NumEmbeddings env" using feats by simp
  moreover have "\<forall>g<NumEmbeddings env.
            feats ! g = map (FeatureRow env g) (occupied r') \<and>
            length (feats ! g) = length (filter (\<lambda>s. s \<noteq> None) (states r'))"
    using feats length_occupied[OF inv'] by simp
  moreover have "\<forall>i<max_batch_size r'. \<forall>st. state r' i = Some st \<longrightarrow>
            compact_index r' i < length (occupied r') \<and>
            occupied r' ! compact_index r' i = (workspaces r' ! i, st)"
  proof (intro allI impI)
    fix i st assume "i < max_batch_size r'" "state r' i = Some st"
    from occupied_nth[OF this]
    show "compact_index r' i < length (occupied r') \<and>
          occupied r' ! compact_index r' i = (workspaces r' ! i, st)"
      by simp
  qed
  moreover have "\<forall>i j st. i < j \<and> state r' i = Some st \<longrightarrow> compact_index r' i < compact_index r' j"
  proof (intro allI impI)
    fix i j st assume "i < j \<and> state r' i = Some st"
    then show "compact_index r' i < compact_index r' j"
      using compact_index_mono[of i j r' st] by simp
  qed
  ultimately show ?thesis by (intro conjI)
qed

theorem feature_rows_per_occupied_slot_witness:
  "reader_inv toy_two_running \<and>
   Step toy GoldPolicy toy_two_running = Inr (toy_one_left, [[[''x'', []]], [[''xx'']]], 1) \<and>
   states toy_one_left = [None, Some toy_popped_state] \<and>
   map (FeatureRow toy 0) (occupied toy_one_left) = [[''x'', []]] \<and>
   map (FeatureRow toy 1) (occupied toy_one_left) = [[''xx'']] \<and>
   compact_index toy_one_left 1 = 0"
proof -
  have h1: "reader_inv toy_two_running" by code_simp
  have h2: "Step toy GoldPolicy toy_two_running = Inr (toy_one_left, [[[''x'', []]], [[''xx'']]], 1)"
    by code_simp
  have h3: "states toy_one_left = [None, Some toy_popped_state]" by code_simp
  have h4: "compact_index toy_one_left 1 = 0" by code_simp
  have n: "NumEmbeddings toy = 2" by code_simp
  note t = feature_rows_per_occupied_slot[OF h1 h2, THEN conjunct2, THEN conjunct1, unfolded n]
  have "map (FeatureRow toy 0) (occupied toy_one_left) = [[''x'', []]]"
    using t[rule_format, of 0] by simp
  moreover have "map (FeatureRow toy 1) (occupied toy_one_left) = [[''xx'']]"
    using t[rule_format, of 1] by simp
  ultimately show ?thesis using h1 h2 h3 h4 by simp
qed

subsection \<open>C7\<close>

text \<open>
  C7: the accuracy tuple of a decoded step counts the scored and the correct tokens
  of the sentences whose state is final after the action of this step, and nothing
  else: the counters are reset before the first action, so the step and its outputs
  do not depend on what the counters held before.
\<close>

theorem accuracy_counts_this_step_only:
  assumes "reader_inv r" "DecodedCompute env scores r = Inr (r', out)"
  shows "fst (additional_outputs out) =
           (sum_list (map (\<lambda>st. int (length (scored_tokens env (scoring_type r) st)))
                        (finalized env scores r (max_batch_size r))),
            sum_list (map (\<lambda>st. int (length (correct_tokens env (scoring_type r) st)))
                        (finalized env scores r (max_batch_size r)))) \<and>
         DecodedCompute env scores (r\<lparr>num_tokens := a, num_correct := b\<rparr>) = DecodedCompute env scores r"
  using DecodedCompute_Inr(2)[OF assms] DecodedCompute_counters[where env=env and m=scores and a=a and b=b and r=r]
  by (simp add: decoded_after_fields)

theorem accuracy_counts_this_step_only_witness:
  "reader_inv toy_finishing \<and>
   DecodedCompute toy tie_scores toy_finishing =
     Inr (toy_loaded\<lparr>num_epochs := 2, num_tokens := 2, num_correct := 1\<rparr>,
          \<lparr>feature_outputs = [[[''xx'', []]], [[''xx'']]], epoch_output = 2,
           additional_outputs = ((2, 1), [''ab''])\<rparr>) \<and>
   num_tokens toy_finishing = 7 \<and> num_correct toy_finishing = 5 \<and>
   sum_list (map (\<lambda>st. int (length (scored_tokens toy (scoring_type toy_finishing) st)))
               (finalized toy tie_scores toy_finishing (max_batch_size toy_finishing))) = 2 \<and>
   sum_list (map (\<lambda>st. int (length (correct_tokens toy (scoring_type toy_finishing) st)))
               (finalized toy tie_scores toy_finishing (max_batch_size toy_finishing))) = 1"
proof -
  have h1: "reader_inv toy_finishing" by code_simp
  have h2: "DecodedCompute toy tie_scores toy_finishing =
     Inr (toy_loaded\<lparr>num_epochs := 2, num_tokens := 2, num_correct := 1\<rparr>,
          \<lparr>feature_outputs = [[[''xx'', []]], [[''xx'']]], epoch_output = 2,
           additional_outputs = ((2, 1), [''ab''])\<rparr>)"
    by code_simp
  have h3: "num_tokens toy_finishing = 7 \<and> num_correct toy_finishing = 5" by code_simp
  show ?thesis
    using accuracy_counts_this_step_only[OF h1 h2] h1 h2 h3 by simp
qed

subsection \<open>C8\<close>




subsection \<open>C9\<close>

text \<open>
  C9: in a step of either policy, when the advance pass reaches a slot whose state is
  final after the action pass,
  it loads the next sentences of the corpus into the slot until one of them has an
  initial state that is not final, which then occupies the slot with the cursor just
  behind it, or until the corpus is exhausted, which leaves the slot empty. After the
  pass no slot holds a final state, and a slot that was empty or not final is as it
  was.
\<close>

theorem final_slots_advance_to_next_sentence:
  assumes "reader_inv r0" "ActionPass env p r0 = Inr r"
    and "i < max_batch_size r" "state r i = Some st" "IsFinalState env st"
  shows "state (foldl (AdvanceWhileFinal env) r [0..<i]) i = Some st \<and>
         (case skip_trivial env (sentence_batch (foldl (AdvanceWhileFinal env) r [0..<i])) of
            [] \<Rightarrow>
              state (AdvanceFinalStates env r) i = None \<and>
              cursor (sentence_batch (foldl (AdvanceWhileFinal env) r [0..<Suc i]))
                = length (corpus (sentence_batch r))
          | s # rest \<Rightarrow>
              state (AdvanceFinalStates env r) i = Some (NewParserState env s) \<and>
              \<not> IsFinalState env (NewParserState env s) \<and>
              cursor (sentence_batch (foldl (AdvanceWhileFinal env) r [0..<Suc i]))
                = length (corpus (sentence_batch r)) - length rest) \<and>
         (\<forall>j<max_batch_size r. settled env (state (AdvanceFinalStates env r) j)) \<and>
         (\<forall>j<max_batch_size r. settled env (state r j) \<longrightarrow>
            state (AdvanceFinalStates env r) j = state r j)"
proof -
  let ?ri = "foldl (AdvanceWhileFinal env) r [0..<i]"
  let ?rs = "foldl (AdvanceWhileFinal env) r [0..<Suc i]"
  note inv = ActionPass_Inr(1)[OF assms(1,2)]
  have le: "i \<le> max_batch_size r" using assms(3) by simp
  note P = AdvancePass_prefix[OF inv le, of env]
  have invi: "reader_inv ?ri" and mbi: "i < max_batch_size ?ri"
    and corp: "corpus (sentence_batch ?ri) = corpus (sentence_batch r)"
    using P assms(3) by simp_all
  have sti: "state ?ri i = Some st" using P assms(3,4) by simp
  have len: "i < length (states ?ri)" using invi mbi by (simp add: reader_inv_lengths)
  have rs: "?rs = AdvanceWhileFinal env ?ri i" by simp
  have later: "state (AdvanceFinalStates env r) i = state ?rs i"
    unfolding AdvanceFinalStates_def
    using AdvancePass_later[OF inv assms(3) le_refl, of env] .
  note fin = AdvanceWhileFinal_final[OF invi mbi sti assms(5), folded rs, unfolded corp]
  have mid: "(case skip_trivial env (sentence_batch ?ri) of
            [] \<Rightarrow>
              state (AdvanceFinalStates env r) i = None \<and>
              cursor (sentence_batch ?rs) = length (corpus (sentence_batch r))
          | s # rest \<Rightarrow>
              state (AdvanceFinalStates env r) i = Some (NewParserState env s) \<and>
              \<not> IsFinalState env (NewParserState env s) \<and>
              cursor (sentence_batch ?rs) = length (corpus (sentence_batch r)) - length rest)"
  proof (cases "skip_trivial env (sentence_batch ?ri)")
    case Nil
    with fin have "states ?rs = (states ?ri)[i := None]"
      "cursor (sentence_batch ?rs) = length (corpus (sentence_batch r))"
      by simp_all
    then show ?thesis using Nil later len by (simp add: state_def)
  next
    case (Cons s rest)
    with fin have "states ?rs = (states ?ri)[i := Some (NewParserState env s)]"
      "cursor (sentence_batch ?rs) = length (corpus (sentence_batch r)) - length rest"
      by simp_all
    then show ?thesis using Cons later len skip_trivial_hd[OF Cons] by (simp add: state_def)
  qed
  show ?thesis
    using sti mid AdvanceFinalStates_inv(6,7)[OF inv, of env] by (intro conjI)
qed

theorem final_slots_advance_to_next_sentence_witness:
  "reader_inv toy_before_done \<and> ActionPass toy GoldPolicy toy_before_done = Inr toy_at_trivial \<and>
   (0::nat) < max_batch_size toy_at_trivial \<and>
   state toy_at_trivial 0 = Some toy_done_state \<and> IsFinalState toy toy_done_state \<and>
   skip_trivial toy (sentence_batch (foldl (AdvanceWhileFinal toy) toy_at_trivial [0..<0]))
     = [[tok ''b''], [tok ''c'']] \<and>
   state (AdvanceFinalStates toy toy_at_trivial) 0 = Some (NewParserState toy [tok ''b'']) \<and>
   cursor (sentence_batch (AdvanceFinalStates toy toy_at_trivial)) = 4"
proof -
  have h0: "reader_inv toy_before_done" by code_simp
  have h1: "ActionPass toy GoldPolicy toy_before_done = Inr toy_at_trivial" by code_simp
  have h2: "(0::nat) < max_batch_size toy_at_trivial" by code_simp
  have h3: "state toy_at_trivial 0 = Some toy_done_state" by code_simp
  have h4: "IsFinalState toy toy_done_state" by code_simp
  have h5: "skip_trivial toy (sentence_batch (foldl (AdvanceWhileFinal toy) toy_at_trivial [0..<0]))
     = [[tok ''b''], [tok ''c'']]" by code_simp
  have h6: "cursor (sentence_batch (AdvanceFinalStates toy toy_at_trivial)) = 4" by code_simp
  note t = final_slots_advance_to_next_sentence[OF h0 h1 h2 h3 h4, THEN conjunct2, THEN conjunct1,
      unfolded h5 list.case]
  have "state (AdvanceFinalStates toy toy_at_trivial) 0 = Some (NewParserState toy [tok ''b''])"
    using t by (rule conjunct1)
  then show ?thesis using h0 h1 h2 h3 h4 h5 h6 by simp
qed

subsection \<open>C10\<close>

text \<open>
  C10: the row of the score matrix from which the decoded reader selects the action
  of an occupied slot is the slot's compacted index, and that is the row at which the
  features of the slot were emitted by the step before: no slot is emptied or filled
  between the feature output of a step and the action pass of the next.
\<close>

theorem score_row_is_previous_feature_row:
  assumes "reader_inv r" "Step env p r = Inr (r', feats, epoch)"
    and "i < max_batch_size r'" "state r' i = Some st"
    and "Decoded_PerformActions env scores r' = Inr r''"
  shows "compact_index r' i < length (occupied r') \<and>
         (\<forall>g<NumEmbeddings env.
            feats ! g ! compact_index r' i = FeatureRow env g (workspaces r' ! i, st)) \<and>
         state r'' i = Some (PerformAction env (fst (BestAction env scores (compact_index r' i) st)) st)"
proof -
  note feats = Step_features[OF assms(1,2)]
  note inv' = Step_reader_inv(1)[OF assms(1,2)]
  note occ = occupied_nth[OF assms(3,4)]
  have "\<forall>g<NumEmbeddings env.
            feats ! g ! compact_index r' i = FeatureRow env g (workspaces r' ! i, st)"
  proof (intro allI impI)
    fix g assume g: "g < NumEmbeddings env"
    then have "feats ! g = map (FeatureRow env g) (occupied r')" using feats by simp
    then show "feats ! g ! compact_index r' i = FeatureRow env g (workspaces r' ! i, st)"
      using occ by simp
  qed
  moreover note Decoded_PerformActions_state[OF inv' assms(3,4,5)]
  ultimately show ?thesis using occ(1) by (intro conjI)
qed

theorem score_row_is_previous_feature_row_witness:
  "reader_inv toy_two_running \<and>
   Step toy GoldPolicy toy_two_running = Inr (toy_one_left, [[[''x'', []]], [[''xx'']]], 1) \<and>
   (1::nat) < max_batch_size toy_one_left \<and> state toy_one_left 1 = Some toy_popped_state \<and>
   Decoded_PerformActions toy one_row_scores toy_one_left =
     Inr (toy_one_left\<lparr>states := [None, Some (toy_perform 1 toy_popped_state)]\<rparr>) \<and>
   compact_index toy_one_left 1 = 0 \<and>
   BestAction toy one_row_scores 0 toy_popped_state = (1, Finite 2) \<and>
   FeatureRow toy 0 (workspaces toy_one_left ! 1, toy_popped_state) = [''x'', []]"
proof -
  have h1: "reader_inv toy_two_running" by code_simp
  have h2: "Step toy GoldPolicy toy_two_running = Inr (toy_one_left, [[[''x'', []]], [[''xx'']]], 1)"
    by code_simp
  have h3: "(1::nat) < max_batch_size toy_one_left" by code_simp
  have h4: "state toy_one_left 1 = Some toy_popped_state" by code_simp
  have h5: "Decoded_PerformActions toy one_row_scores toy_one_left =
     Inr (toy_one_left\<lparr>states := [None, Some (toy_perform 1 toy_popped_state)]\<rparr>)" by code_simp
  have h6: "compact_index toy_one_left 1 = 0" by code_simp
  have h7: "BestAction toy one_row_scores 0 toy_popped_state = (1, Finite 2)" by code_simp
  have n: "NumEmbeddings toy = 2" by code_simp
  note t = score_row_is_previous_feature_row[OF h1 h2 h3 h4 h5, THEN conjunct2, THEN conjunct1,
      unfolded n h6]
  have "FeatureRow toy 0 (workspaces toy_one_left ! 1, toy_popped_state) = [''x'', []]"
    using t[rule_format, of 0] by simp
  then show ?thesis using h1 h2 h3 h4 h5 h6 h7 by simp
qed

end
